theory Spec2Isabelle
  imports Main "HOL-Library.Word"
begin

section \<open>Machine model\<close>

text \<open>
  The library is C: \<^verbatim>\<open>int\<close> and \<^verbatim>\<open>unsigned int\<close> are 32 bits wide. Signed values are
  modelled as \<open>int\<close> with the representable range written out (\<open>in_int\<close>); an operation
  that leaves the range is undefined behaviour (\<open>UB\<close>). Unsigned arithmetic wraps modulo
  \<open>2 ^ 32\<close> (\<open>u32\<close>). Signed arithmetic whose operands the preceding guards already
  confine (for a slice with \<open>0 \<le> len\<close>) is written on \<open>int\<close> directly.

  Memory is an explicit store: a table of slice structs and a table of byte blocks. An
  address is an index into its table, an allocation adds an entry at the end, and a freed
  (or not yet initialised) entry is \<open>None\<close>. A \<^verbatim>\<open>Slice*\<close> is an address of a struct, a
  \<^verbatim>\<open>void*\<close> is a block address with a byte offset, and \<open>None\<close> is \<^verbatim>\<open>NULL\<close>. Reading or
  writing outside a live block, dereferencing \<^verbatim>\<open>NULL\<close> and freeing a dead block are
  undefined behaviour.
\<close>

type_synonym addr = nat
type_synonym byte = "8 word"
type_synonym ptr = "addr \<times> nat"
type_synonym mem = "byte list option list"

definition INT_MAX :: int where
  "INT_MAX = 2147483647"

definition INT_MIN :: int where
  "INT_MIN = - 2147483648"

definition in_int :: "int \<Rightarrow> bool" where
  "in_int x = (INT_MIN \<le> x \<and> x \<le> INT_MAX)"

definition u32 :: "int \<Rightarrow> nat" where
  "u32 x = nat (x mod 4294967296)"

datatype 'a res = UB | Ret 'a

text \<open>The struct of \<^verbatim>\<open>slice.h\<close>.\<close>

record Slice =
  head :: addr
  len :: int
  cap :: int
  elSize :: nat

text \<open>
  The heap: the slice structs, the byte blocks, and the outcomes of the coming allocation
  requests (\<open>True\<close>: the request is served; when the list is used up every request is
  served). The allocator is free to refuse any request, so a property that holds for every
  heap holds for every behaviour of \<^verbatim>\<open>malloc\<close>, \<^verbatim>\<open>calloc\<close> and \<^verbatim>\<open>realloc\<close>. A fresh
  block is filled with zero bytes (\<^verbatim>\<open>calloc\<close> guarantees them; for \<^verbatim>\<open>malloc\<close> and the tail
  of a block grown by \<^verbatim>\<open>realloc\<close> they stand for the indeterminate content, which the
  library never reads below \<open>len\<close>). A served \<^verbatim>\<open>realloc\<close> moves the block: the old address
  is dead afterwards, as every caller of \<^verbatim>\<open>realloc\<close> has to assume. A refused
  \<^verbatim>\<open>realloc\<close> leaves the old block alone, except for a request of 0 bytes: that one is
  either served with a block of 0 bytes or answered the way glibc does, by freeing the old
  block and returning \<^verbatim>\<open>NULL\<close>.
\<close>

record heap =
  slices :: "Slice option list"
  bufs :: mem
  avail :: "bool list"

definition lookup :: "'a option list \<Rightarrow> addr \<Rightarrow> 'a option" where
  "lookup xs a = (if a < length xs then xs ! a else None)"

definition alloc_ok :: "heap \<Rightarrow> bool" where
  "alloc_ok h = (case avail h of [] \<Rightarrow> True | b # _ \<Rightarrow> b)"

definition tick :: "heap \<Rightarrow> heap" where
  "tick h = h\<lparr>avail := tl (avail h)\<rparr>"

definition malloc_Slice :: "heap \<Rightarrow> addr option \<times> heap" where
  "malloc_Slice h =
     (if alloc_ok h
      then (Some (length (slices h)), (tick h)\<lparr>slices := slices h @ [None]\<rparr>)
      else (None, tick h))"

definition malloc :: "nat \<Rightarrow> heap \<Rightarrow> addr option \<times> heap" where
  "malloc n h =
     (if alloc_ok h
      then (Some (length (bufs h)), (tick h)\<lparr>bufs := bufs h @ [Some (replicate n 0)]\<rparr>)
      else (None, tick h))"

definition calloc :: "nat \<Rightarrow> nat \<Rightarrow> heap \<Rightarrow> addr option \<times> heap" where
  "calloc n sz h = malloc (n * sz) h"

definition realloc :: "addr \<Rightarrow> nat \<Rightarrow> heap \<Rightarrow> (addr option \<times> heap) res" where
  "realloc p n h =
     (case lookup (bufs h) p of
        None \<Rightarrow> UB
      | Some bs \<Rightarrow>
          if alloc_ok h
          then Ret (Some (length (bufs h)),
                    (tick h)\<lparr>bufs := (bufs h)[p := None]
                                        @ [Some (take n bs @ replicate (n - length bs) 0)]\<rparr>)
          else if n = 0 then Ret (None, (tick h)\<lparr>bufs := (bufs h)[p := None]\<rparr>)
          else Ret (None, tick h))"

definition free_buf :: "addr \<Rightarrow> heap \<Rightarrow> heap res" where
  "free_buf p h =
     (case lookup (bufs h) p of
        None \<Rightarrow> UB
      | Some _ \<Rightarrow> Ret (h\<lparr>bufs := (bufs h)[p := None]\<rparr>))"

definition load :: "mem \<Rightarrow> ptr \<Rightarrow> nat \<Rightarrow> byte list option" where
  "load m p n =
     (case lookup m (fst p) of
        None \<Rightarrow> None
      | Some bs \<Rightarrow> if snd p + n \<le> length bs then Some (take n (drop (snd p) bs)) else None)"

definition store :: "mem \<Rightarrow> ptr \<Rightarrow> byte list \<Rightarrow> mem option" where
  "store m p v =
     (case lookup m (fst p) of
        None \<Rightarrow> None
      | Some bs \<Rightarrow>
          if snd p + length v \<le> length bs
          then Some (m[fst p := Some (take (snd p) bs @ v @ drop (snd p + length v) bs)])
          else None)"

definition overlap :: "ptr \<Rightarrow> ptr \<Rightarrow> nat \<Rightarrow> bool" where
  "overlap d s n = (fst d = fst s \<and> snd d < snd s + n \<and> snd s < snd d + n)"

definition memcpy :: "ptr option \<Rightarrow> ptr option \<Rightarrow> nat \<Rightarrow> mem \<Rightarrow> mem res" where
  "memcpy dst src n m =
     (case dst of
        None \<Rightarrow> UB
      | Some d \<Rightarrow>
          (case src of
             None \<Rightarrow> UB
           | Some s \<Rightarrow>
               if overlap d s n then UB
               else (case load m s n of
                       None \<Rightarrow> UB
                     | Some v \<Rightarrow> (case store m d v of None \<Rightarrow> UB | Some m' \<Rightarrow> Ret m'))))"

definition deref :: "heap \<Rightarrow> addr option \<Rightarrow> Slice option" where
  "deref h sp = (case sp of None \<Rightarrow> None | Some a \<Rightarrow> lookup (slices h) a)"

section \<open>The operations of \<^verbatim>\<open>slice.c\<close>\<close>

definition NewSlice :: "nat \<Rightarrow> int \<Rightarrow> heap \<Rightarrow> addr option \<times> heap" where
  "NewSlice elSz cp h =
     (case malloc_Slice h of
        (None, h1) \<Rightarrow> (None, h1)
      | (Some s, h1) \<Rightarrow>
          if cp < 0 then (None, h1)
          else (case calloc (u32 cp) elSz h1 of
                  (None, h2) \<Rightarrow> (None, h2)
                | (Some b, h2) \<Rightarrow>
                    (Some s,
                     h2\<lparr>slices := (slices h2)
                          [s := Some \<lparr>head = b, len = 0, cap = cp, elSize = elSz\<rparr>]\<rparr>)))"

definition DeleteSlice :: "addr option \<Rightarrow> heap \<Rightarrow> heap res" where
  "DeleteSlice sp h =
     (case deref h sp of
        None \<Rightarrow> UB
      | Some s \<Rightarrow>
          (case free_buf (head s) h of
             UB \<Rightarrow> UB
           | Ret h1 \<Rightarrow> Ret (h1\<lparr>slices := (slices h1)[the sp := None]\<rparr>)))"

definition SliceGet :: "addr option \<Rightarrow> int \<Rightarrow> heap \<Rightarrow> ptr option res" where
  "SliceGet sp i h =
     (case deref h sp of
        None \<Rightarrow> UB
      | Some s \<Rightarrow>
          if i \<ge> 0 then
            (if i \<ge> len s then Ret None
             else Ret (Some (head s, u32 (i * int (elSize s)))))
          else
            (if \<not> in_int (len s + i) then UB
             else if len s + i < 0 then Ret None
             else Ret (Some (head s, u32 ((len s + i) * int (elSize s))))))"

text \<open>The growth block of \<^verbatim>\<open>SliceAppend\<close>: the size handed to \<^verbatim>\<open>realloc\<close> is computed
  in \<^verbatim>\<open>unsigned int\<close>, the new capacity in \<^verbatim>\<open>int\<close>.\<close>

definition realloc_size :: "Slice \<Rightarrow> nat" where
  "realloc_size s = u32 ((cap s + int (elSize s)) * int (elSize s) * 2)"

definition grow :: "addr \<Rightarrow> Slice \<Rightarrow> heap \<Rightarrow> (Slice option \<times> heap) res" where
  "grow a s h =
     (if len s = cap s then
        (case realloc (head s) (realloc_size s) h of
           UB \<Rightarrow> UB
         | Ret (None, h1) \<Rightarrow> Ret (None, h1)
         | Ret (Some new, h1) \<Rightarrow>
             if in_int (cap s + 1) \<and> in_int ((cap s + 1) * 2)
             then (let s1 = s\<lparr>head := new, cap := (cap s + 1) * 2\<rparr>
                   in Ret (Some s1, h1\<lparr>slices := (slices h1)[a := Some s1]\<rparr>))
             else UB)
      else Ret (Some s, h))"

definition SliceAppend :: "addr option \<Rightarrow> ptr option \<Rightarrow> heap \<Rightarrow> (addr option \<times> heap) res" where
  "SliceAppend sp dat h =
     (case deref h sp of
        None \<Rightarrow> UB
      | Some s \<Rightarrow>
          (case grow (the sp) s h of
             UB \<Rightarrow> UB
           | Ret (None, h1) \<Rightarrow> Ret (None, h1)
           | Ret (Some s1, h1) \<Rightarrow>
               (case memcpy (Some (head s1, u32 (len s1 * int (elSize s1)))) dat
                       (elSize s1) (bufs h1) of
                  UB \<Rightarrow> UB
                | Ret m \<Rightarrow>
                    if in_int (len s1 + 1)
                    then Ret (sp, h1\<lparr>slices := (slices h1)[the sp := Some (s1\<lparr>len := len s1 + 1\<rparr>)],
                                     bufs := m\<rparr>)
                    else UB)))"

text \<open>
  The two copy loops of \<^verbatim>\<open>SliceSlice\<close> have the same body (\<open>copy_elem\<close>): fetch the
  element, append it to the result, and on either failure delete the result and return
  \<^verbatim>\<open>NULL\<close>. The ascending loop is entered only with \<open>step > 0\<close> and the descending one
  only with \<open>step < 0\<close> (\<open>step = 0\<close> is rejected before); \<^verbatim>\<open>i += step\<close> leaving the range
  of \<^verbatim>\<open>int\<close> is undefined behaviour.
\<close>

definition copy_elem :: "addr option \<Rightarrow> addr option \<Rightarrow> int \<Rightarrow> heap \<Rightarrow> (addr option \<times> heap) res" where
  "copy_elem sp ret i h =
     (case SliceGet sp i h of
        UB \<Rightarrow> UB
      | Ret None \<Rightarrow> (case DeleteSlice ret h of UB \<Rightarrow> UB | Ret h1 \<Rightarrow> Ret (None, h1))
      | Ret (Some d) \<Rightarrow>
          (case SliceAppend ret (Some d) h of
             UB \<Rightarrow> UB
           | Ret (None, h1) \<Rightarrow>
               (case DeleteSlice ret h1 of UB \<Rightarrow> UB | Ret h2 \<Rightarrow> Ret (None, h2))
           | Ret (Some r, h1) \<Rightarrow> Ret (Some r, h1)))"

function copy_up ::
  "addr option \<Rightarrow> addr option \<Rightarrow> int \<Rightarrow> int \<Rightarrow> int \<Rightarrow> heap \<Rightarrow> (addr option \<times> heap) res" where
  "copy_up sp ret i i2 step h =
     (if i < i2 then
        (case copy_elem sp ret i h of
           UB \<Rightarrow> UB
         | Ret (None, h1) \<Rightarrow> Ret (None, h1)
         | Ret (Some _, h1) \<Rightarrow>
             if 0 < step \<and> in_int (i + step)
             then copy_up sp ret (i + step) i2 step h1
             else UB)
      else Ret (ret, h))"
  by pat_completeness auto
termination
  by (relation "measure (\<lambda>(sp, ret, i, i2, step, h). nat (INT_MAX - i))")
     (auto simp: in_int_def)

function copy_down ::
  "addr option \<Rightarrow> addr option \<Rightarrow> int \<Rightarrow> int \<Rightarrow> int \<Rightarrow> heap \<Rightarrow> (addr option \<times> heap) res" where
  "copy_down sp ret i i1 step h =
     (if i \<ge> i1 then
        (case copy_elem sp ret i h of
           UB \<Rightarrow> UB
         | Ret (None, h1) \<Rightarrow> Ret (None, h1)
         | Ret (Some _, h1) \<Rightarrow>
             if step < 0 \<and> in_int (i + step)
             then copy_down sp ret (i + step) i1 step h1
             else UB)
      else Ret (ret, h))"
  by pat_completeness auto
termination
  by (relation "measure (\<lambda>(sp, ret, i, i1, step, h). nat (i - INT_MIN))")
     (auto simp: in_int_def)

definition SliceSlice ::
  "addr option \<Rightarrow> int \<Rightarrow> int \<Rightarrow> int \<Rightarrow> heap \<Rightarrow> (addr option \<times> heap) res" where
  "SliceSlice sp i1 i2 step h =
     (case deref h sp of
        None \<Rightarrow> UB
      | Some s \<Rightarrow>
          if i1 \<ge> len s \<or> i1 < - len s \<or> i2 > len s \<or> i2 < - len s \<or> step = 0
          then Ret (None, h)
          else
            (let j1 = (if i1 < 0 then len s + i1 else i1);
                 j2 = (if i2 < 0 then len s + i2 + 1 else i2)
             in if j1 \<ge> j2 then Ret (None, h)
                else
                  (case NewSlice (elSize s) (j2 - j1) h of
                     (None, h1) \<Rightarrow> Ret (None, h1)
                   | (Some r, h1) \<Rightarrow>
                       if step > 0 then copy_up sp (Some r) j1 j2 step h1
                       else copy_down sp (Some r) (j2 - 1) j1 step h1)))"

text \<open>
  Callbacks receive element pointers and may read and write the byte blocks; they have no
  access to the slice structs.
\<close>

type_synonym map_fn = "ptr option \<Rightarrow> mem \<Rightarrow> ptr option \<times> mem"
type_synonym filter_fn = "ptr option \<Rightarrow> mem \<Rightarrow> int \<times> mem"
type_synonym reduce_fn = "ptr option \<Rightarrow> ptr option \<Rightarrow> mem \<Rightarrow> ptr option \<times> mem"
type_synonym each_fn = "ptr option \<Rightarrow> mem \<Rightarrow> mem"

function map_loop ::
  "map_fn \<Rightarrow> addr option \<Rightarrow> addr option \<Rightarrow> int \<Rightarrow> heap \<Rightarrow> (addr option \<times> heap) res" where
  "map_loop f sp ret i h =
     (case deref h sp of
        None \<Rightarrow> UB
      | Some s \<Rightarrow>
          if i < len s then
            (case SliceGet sp i h of
               UB \<Rightarrow> UB
             | Ret p \<Rightarrow>
                 (case SliceAppend ret (fst (f p (bufs h))) (h\<lparr>bufs := snd (f p (bufs h))\<rparr>) of
                    UB \<Rightarrow> UB
                  | Ret (None, h1) \<Rightarrow> Ret (None, h1)
                  | Ret (Some _, h1) \<Rightarrow>
                      if in_int (i + 1) then map_loop f sp ret (i + 1) h1 else UB))
          else Ret (ret, h))"
  by pat_completeness auto
termination
  by (relation "measure (\<lambda>(f, sp, ret, i, h). nat (INT_MAX - i))")
     (auto simp: in_int_def)

definition SliceMap :: "addr option \<Rightarrow> nat \<Rightarrow> map_fn \<Rightarrow> heap \<Rightarrow> (addr option \<times> heap) res" where
  "SliceMap sp elSz f h =
     (case deref h sp of
        None \<Rightarrow> UB
      | Some s \<Rightarrow>
          (case NewSlice elSz (len s) h of
             (ret, h1) \<Rightarrow> map_loop f sp ret 0 h1))"

function filter_loop ::
  "filter_fn \<Rightarrow> addr option \<Rightarrow> addr option \<Rightarrow> int \<Rightarrow> heap \<Rightarrow> (addr option \<times> heap) res" where
  "filter_loop f sp ret i h =
     (case deref h sp of
        None \<Rightarrow> UB
      | Some s \<Rightarrow>
          if i < len s then
            (case SliceGet sp i h of
               UB \<Rightarrow> UB
             | Ret dat \<Rightarrow>
                 if fst (f dat (bufs h)) \<noteq> 0 then
                   (case SliceAppend ret dat (h\<lparr>bufs := snd (f dat (bufs h))\<rparr>) of
                      UB \<Rightarrow> UB
                    | Ret (None, h1) \<Rightarrow>
                        (case DeleteSlice ret h1 of UB \<Rightarrow> UB | Ret h2 \<Rightarrow> Ret (None, h2))
                    | Ret (Some _, h1) \<Rightarrow>
                        if in_int (i + 1) then filter_loop f sp ret (i + 1) h1 else UB)
                 else if in_int (i + 1)
                   then filter_loop f sp ret (i + 1) (h\<lparr>bufs := snd (f dat (bufs h))\<rparr>)
                   else UB)
          else Ret (ret, h))"
  by pat_completeness auto
termination
  by (relation "measure (\<lambda>(f, sp, ret, i, h). nat (INT_MAX - i))")
     (auto simp: in_int_def)

definition SliceFilter :: "addr option \<Rightarrow> filter_fn \<Rightarrow> heap \<Rightarrow> (addr option \<times> heap) res" where
  "SliceFilter sp f h =
     (case deref h sp of
        None \<Rightarrow> UB
      | Some s \<Rightarrow>
          (case NewSlice (elSize s) 0 h of
             (ret, h1) \<Rightarrow> filter_loop f sp ret 0 h1))"

function reduce_loop ::
  "reduce_fn \<Rightarrow> addr option \<Rightarrow> ptr option \<Rightarrow> int \<Rightarrow> heap \<Rightarrow> (ptr option \<times> heap) res" where
  "reduce_loop f sp ret i h =
     (case deref h sp of
        None \<Rightarrow> UB
      | Some s \<Rightarrow>
          if i < len s then
            (case SliceGet sp i h of
               UB \<Rightarrow> UB
             | Ret d \<Rightarrow>
                 if in_int (i + 1)
                 then reduce_loop f sp (fst (f ret d (bufs h))) (i + 1)
                        (h\<lparr>bufs := snd (f ret d (bufs h))\<rparr>)
                 else UB)
          else Ret (ret, h))"
  by pat_completeness auto
termination
  by (relation "measure (\<lambda>(f, sp, ret, i, h). nat (INT_MAX - i))")
     (auto simp: in_int_def)

definition SliceReduce :: "addr option \<Rightarrow> reduce_fn \<Rightarrow> heap \<Rightarrow> (ptr option \<times> heap) res" where
  "SliceReduce sp f h =
     (case SliceGet sp 0 h of
        UB \<Rightarrow> UB
      | Ret ret \<Rightarrow> reduce_loop f sp ret 1 h)"

function each_loop :: "each_fn \<Rightarrow> addr option \<Rightarrow> int \<Rightarrow> heap \<Rightarrow> heap res" where
  "each_loop f sp i h =
     (case deref h sp of
        None \<Rightarrow> UB
      | Some s \<Rightarrow>
          if i < len s then
            (case SliceGet sp i h of
               UB \<Rightarrow> UB
             | Ret d \<Rightarrow>
                 if in_int (i + 1)
                 then each_loop f sp (i + 1) (h\<lparr>bufs := f d (bufs h)\<rparr>)
                 else UB)
          else Ret h)"
  by pat_completeness auto
termination
  by (relation "measure (\<lambda>(f, sp, i, h). nat (INT_MAX - i))")
     (auto simp: in_int_def)

definition SliceForEach :: "addr option \<Rightarrow> each_fn \<Rightarrow> heap \<Rightarrow> heap res" where
  "SliceForEach sp f h = each_loop f sp 0 h"

text \<open>\<^verbatim>\<open>i < cnt\<close> compares in \<^verbatim>\<open>unsigned int\<close>; \<^verbatim>\<open>a + (s->elSize)*i\<close> is computed before
  the call, so the slice is dereferenced first.\<close>

function array_loop ::
  "addr option \<Rightarrow> ptr option \<Rightarrow> nat \<Rightarrow> int \<Rightarrow> heap \<Rightarrow> (addr option \<times> heap) res" where
  "array_loop sp a cnt i h =
     (if u32 i < cnt then
        (case deref h sp of
           None \<Rightarrow> UB
         | Some s \<Rightarrow>
             (case a of
                None \<Rightarrow> UB
              | Some (b, off) \<Rightarrow>
                  (case SliceAppend sp (Some (b, off + u32 (int (elSize s) * i))) h of
                     UB \<Rightarrow> UB
                   | Ret (None, h1) \<Rightarrow> Ret (None, h1)
                   | Ret (Some _, h1) \<Rightarrow>
                       if in_int (i + 1) then array_loop sp a cnt (i + 1) h1 else UB)))
      else Ret (sp, h))"
  by pat_completeness auto
termination
  by (relation "measure (\<lambda>(sp, a, cnt, i, h). nat (INT_MAX - i))")
     (auto simp: in_int_def)

definition SliceAppendArray ::
  "addr option \<Rightarrow> ptr option \<Rightarrow> nat \<Rightarrow> heap \<Rightarrow> (addr option \<times> heap) res" where
  "SliceAppendArray sp a cnt h = array_loop sp a cnt 0 h"

function extend_loop ::
  "addr option \<Rightarrow> addr option \<Rightarrow> int \<Rightarrow> heap \<Rightarrow> (addr option \<times> heap) res" where
  "extend_loop s1 s2 i h =
     (case deref h s2 of
        None \<Rightarrow> UB
      | Some s \<Rightarrow>
          if i < len s then
            (case SliceGet s2 i h of
               UB \<Rightarrow> UB
             | Ret d \<Rightarrow>
                 (case SliceAppend s1 d h of
                    UB \<Rightarrow> UB
                  | Ret (None, h1) \<Rightarrow> Ret (None, h1)
                  | Ret (Some _, h1) \<Rightarrow>
                      if in_int (i + 1) then extend_loop s1 s2 (i + 1) h1 else UB))
          else Ret (s1, h))"
  by pat_completeness auto
termination
  by (relation "measure (\<lambda>(s1, s2, i, h). nat (INT_MAX - i))")
     (auto simp: in_int_def)

definition SliceExtend :: "addr option \<Rightarrow> addr option \<Rightarrow> heap \<Rightarrow> (addr option \<times> heap) res" where
  "SliceExtend s1 s2 h = extend_loop s1 s2 0 h"

definition SliceEmpty :: "addr option \<Rightarrow> heap \<Rightarrow> (addr option \<times> heap) res" where
  "SliceEmpty sp h =
     (case deref h sp of
        None \<Rightarrow> UB
      | Some s \<Rightarrow>
          (case free_buf (head s) h of
             UB \<Rightarrow> UB
           | Ret h1 \<Rightarrow>
               (case malloc 0 h1 of
                  (None, h2) \<Rightarrow> Ret (None, h2)
                | (Some b, h2) \<Rightarrow>
                    Ret (sp, h2\<lparr>slices := (slices h2)
                                 [the sp := Some (s\<lparr>head := b, len := 0, cap := 0\<rparr>)]\<rparr>))))"

section \<open>Vocabulary of the properties\<close>

text \<open>The element at index \<open>i\<close> as a caller observes it: the \<open>elSize\<close> bytes behind the
  pointer that \<^verbatim>\<open>SliceGet\<close> returns.\<close>

definition elem_at :: "heap \<Rightarrow> addr \<Rightarrow> int \<Rightarrow> byte list option" where
  "elem_at h a i =
     (case lookup (slices h) a of
        None \<Rightarrow> None
      | Some s \<Rightarrow>
          (case SliceGet (Some a) i h of
             Ret (Some p) \<Rightarrow> load (bufs h) p (elSize s)
           | _ \<Rightarrow> None))"

section \<open>Example states\<close>

text \<open>A slice of three 4-byte integers 1, 2, 3 with capacity 4, and a caller's block
  holding the integer 7.\<close>

definition ex_slice :: Slice where
  "ex_slice = \<lparr>head = 0, len = 3, cap = 4, elSize = 4\<rparr>"

definition ex_heap :: heap where
  "ex_heap =
     \<lparr>slices = [Some ex_slice],
      bufs = [Some [1,0,0,0, 2,0,0,0, 3,0,0,0, 0,0,0,0], Some [7,0,0,0]],
      avail = []\<rparr>"

text \<open>
  A valid slice: its struct is live, \<open>0 \<le> len \<le> INT_MAX\<close>, its buffer is a live block
  that holds the \<open>len\<close> elements, and their byte extent is below \<open>2 ^ 32\<close> (byte
  offsets are computed in \<^verbatim>\<open>unsigned int\<close>).
\<close>

definition valid :: "heap \<Rightarrow> addr \<Rightarrow> bool" where
  "valid h a =
     (case lookup (slices h) a of
        None \<Rightarrow> False
      | Some s \<Rightarrow>
          0 \<le> len s \<and> len s \<le> INT_MAX \<and> len s * int (elSize s) < 4294967296 \<and>
          (case lookup (bufs h) (head s) of
             None \<Rightarrow> False
           | Some bs \<Rightarrow> nat (len s) * elSize s \<le> length bs))"

text \<open>The struct as the growth block of \<^verbatim>\<open>SliceAppend\<close> leaves it when \<^verbatim>\<open>realloc\<close>
  succeeds.\<close>

definition grown :: "heap \<Rightarrow> Slice \<Rightarrow> Slice" where
  "grown h s =
     (if len s = cap s then s\<lparr>head := length (bufs h), cap := (cap s + 1) * 2\<rparr> else s)"

text \<open>A full slice (one 4-byte element, capacity 1) with a caller's block holding one
  element.\<close>

definition ex_full :: heap where
  "ex_full =
     \<lparr>slices = [Some \<lparr>head = 0, len = 1, cap = 1, elSize = 4\<rparr>],
      bufs = [Some [5,0,0,0], Some [7,0,0,0]],
      avail = []\<rparr>"

text \<open>The left fold of a combiner over a list of element pointers, threading the byte
  blocks the combiner may write.\<close>

fun left_fold :: "reduce_fn \<Rightarrow> ptr option list \<Rightarrow> ptr option \<Rightarrow> mem \<Rightarrow> ptr option \<times> mem" where
  "left_fold f [] acc m = (acc, m)"
| "left_fold f (d # ds) acc m = left_fold f ds (fst (f acc d m)) (snd (f acc d m))"

text \<open>
  A summation combiner on 4-byte little-endian integers that keeps its result in a block
  of the caller, as in
  \<^verbatim>\<open>static int acc; void* sum(void* x, void* y) { acc = *(int*)x + *(int*)y; return &acc; }\<close>
\<close>

definition le32 :: "int \<Rightarrow> byte list" where
  "le32 x = map (\<lambda>k. word_of_int (x div 256 ^ k)) [0, 1, 2, 3]"

definition int_of :: "byte list \<Rightarrow> int" where
  "int_of bs = foldr (\<lambda>b r. uint b + 256 * r) bs 0"

definition sum_ints :: "ptr \<Rightarrow> reduce_fn" where
  "sum_ints acc x y m =
     (case x of
        None \<Rightarrow> (None, m)
      | Some px \<Rightarrow>
          (case y of
             None \<Rightarrow> (None, m)
           | Some py \<Rightarrow>
               (case load m px 4 of
                  None \<Rightarrow> (None, m)
                | Some bx \<Rightarrow>
                    (case load m py 4 of
                       None \<Rightarrow> (None, m)
                     | Some by \<Rightarrow>
                         (case store m acc (le32 (int_of bx + int_of by)) of
                            None \<Rightarrow> (None, m)
                          | Some m' \<Rightarrow> (Some acc, m'))))))"

text \<open>The invariant \<open>0 \<le> len \<le> cap\<close> of every live slice struct.\<close>

definition len_le_cap :: "heap \<Rightarrow> bool" where
  "len_le_cap h =
     list_all (\<lambda>x. case x of None \<Rightarrow> True | Some s \<Rightarrow> 0 \<le> len s \<and> len s \<le> cap s) (slices h)"

text \<open>
  The states a caller can reach: it starts without slices, may change its own blocks
  (and the allocator may serve or refuse what comes) between calls, and calls the
  operations of the library. A call that is undefined behaviour reaches no state.
\<close>

inductive reachable :: "heap \<Rightarrow> bool" where
  r_init: "slices h = [] \<Longrightarrow> reachable h"
| r_caller: "reachable h \<Longrightarrow> reachable (h\<lparr>bufs := m, avail := av\<rparr>)"
| r_new: "reachable h \<Longrightarrow> NewSlice e c h = (r, h') \<Longrightarrow> reachable h'"
| r_delete: "reachable h \<Longrightarrow> DeleteSlice sp h = Ret h' \<Longrightarrow> reachable h'"
| r_slice: "reachable h \<Longrightarrow> SliceSlice sp i1 i2 step h = Ret (r, h') \<Longrightarrow> reachable h'"
| r_map: "reachable h \<Longrightarrow> SliceMap sp e fm h = Ret (r, h') \<Longrightarrow> reachable h'"
| r_filter: "reachable h \<Longrightarrow> SliceFilter sp ff h = Ret (r, h') \<Longrightarrow> reachable h'"
| r_reduce: "reachable h \<Longrightarrow> SliceReduce sp fr h = Ret (q, h') \<Longrightarrow> reachable h'"
| r_each: "reachable h \<Longrightarrow> SliceForEach sp fe h = Ret h' \<Longrightarrow> reachable h'"
| r_append: "reachable h \<Longrightarrow> SliceAppend sp dat h = Ret (r, h') \<Longrightarrow> reachable h'"
| r_array: "reachable h \<Longrightarrow> SliceAppendArray sp dat cnt h = Ret (r, h') \<Longrightarrow> reachable h'"
| r_extend: "reachable h \<Longrightarrow> SliceExtend sp sp2 h = Ret (r, h') \<Longrightarrow> reachable h'"
| r_empty: "reachable h \<Longrightarrow> SliceEmpty sp h = Ret (r, h') \<Longrightarrow> reachable h'"

text \<open>A start state without slices, and the state after creating a slice of 4-byte
  elements with capacity 0 and appending the caller's integer 7 to it.\<close>

definition ex_start :: heap where
  "ex_start = \<lparr>slices = [], bufs = [Some [7,0,0,0]], avail = []\<rparr>"

definition ex_one :: heap where
  "ex_one =
     \<lparr>slices = [Some \<lparr>head = 2, len = 1, cap = 2, elSize = 4\<rparr>],
      bufs = [Some [7,0,0,0], None, Some ([7,0,0,0] @ replicate 28 0)],
      avail = []\<rparr>"

text \<open>
  The situation inside the copy loops of \<^verbatim>\<open>SliceSlice\<close>: a valid source slice \<open>a\<close> and a
  valid result slice \<open>r\<close>, distinct structs with distinct buffers and the same element
  size, the result's capacity no larger than the source's length and backed by its
  buffer.
\<close>

definition copying :: "heap \<Rightarrow> addr \<Rightarrow> addr \<Rightarrow> bool" where
  "copying h a r =
     (valid h a \<and> valid h r \<and> a \<noteq> r \<and>
      (case lookup (slices h) a of
         None \<Rightarrow> False
       | Some s \<Rightarrow>
           (case lookup (slices h) r of
              None \<Rightarrow> False
            | Some sr \<Rightarrow>
                head s \<noteq> head sr \<and> elSize sr = elSize s \<and> cap sr \<le> len s \<and>
                (case lookup (bufs h) (head sr) of
                   None \<Rightarrow> False
                 | Some br \<Rightarrow> nat (cap sr) * elSize s \<le> length br))))"

text \<open>
  The validation of a sub-range as the specification words it: the normalised bounds
  (\<open>start < 0\<close> becomes \<open>start + len\<close>, \<open>end < 0\<close> becomes \<open>end + len + 1\<close>) and the
  conditions under which the request is rejected.
\<close>

definition norm_start :: "Slice \<Rightarrow> int \<Rightarrow> int" where
  "norm_start s i1 = (if i1 < 0 then len s + i1 else i1)"

definition norm_end :: "Slice \<Rightarrow> int \<Rightarrow> int" where
  "norm_end s i2 = (if i2 < 0 then len s + i2 + 1 else i2)"

definition rejected :: "Slice \<Rightarrow> int \<Rightarrow> int \<Rightarrow> int \<Rightarrow> bool" where
  "rejected s i1 i2 step =
     (step = 0 \<or> i1 < - len s \<or> len s \<le> i1 \<or> i2 < - len s \<or> len s < i2 \<or>
      norm_end s i2 \<le> norm_start s i1)"

text \<open>An empty slice of 4-byte elements.\<close>

definition ex_empty :: heap where
  "ex_empty =
     \<lparr>slices = [Some \<lparr>head = 0, len = 0, cap = 0, elSize = 4\<rparr>],
      bufs = [Some []],
      avail = []\<rparr>"

text \<open>
  The ascending loop of \<^verbatim>\<open>SliceSlice\<close> adds \<open>step\<close> to its index once per copied element,
  the last time after the last element: with \<open>n\<close> elements copied the index ends at
  \<open>start + n * step\<close>. \<open>step_fits\<close> says that this value is an \<^verbatim>\<open>int\<close>; otherwise
  \<^verbatim>\<open>i += step\<close> overflows. A descending loop cannot overflow.
\<close>

definition step_fits :: "Slice \<Rightarrow> int \<Rightarrow> int \<Rightarrow> int \<Rightarrow> bool" where
  "step_fits s i1 i2 step =
     (0 < step \<longrightarrow>
      norm_start s i1
        + int (nat ((norm_end s i2 - 1 - norm_start s i1) div step + 1)) * step \<le> INT_MAX)"

text \<open>
  A full slice of one 65536-byte element, with a caller's block holding another element,
  and the state that appending the latter leaves.
\<close>

definition ex_wide_slice :: Slice where
  "ex_wide_slice = \<lparr>head = 0, len = 1, cap = 1, elSize = 65536\<rparr>"

definition ex_wide :: heap where
  "ex_wide =
     \<lparr>slices = [Some ex_wide_slice],
      bufs = [Some (replicate 65536 1), Some (replicate 65536 9)],
      avail = []\<rparr>"

definition ex_wide_grown :: heap where
  "ex_wide_grown =
     \<lparr>slices = [Some \<lparr>head = 2, len = 2, cap = 4, elSize = 65536\<rparr>],
      bufs = [None, Some (replicate 65536 9), Some (replicate 65536 1 @ replicate 65536 9)],
      avail = []\<rparr>"

text \<open>
  Elements of \<open>2 ^ 31 + 1\<close> bytes. The caller holds an element of bytes 1 and an element
  of bytes 9 (\<open>ex_huge_start\<close>), creates a slice of capacity 3 (\<open>ex_huge0\<close>), and appends
  the first element twice (\<open>ex_huge1\<close>, \<open>ex_huge\<close>) and then the second
  (\<open>ex_huge_after\<close>).
\<close>

definition ex_huge_start :: heap where
  "ex_huge_start =
     \<lparr>slices = [], bufs = [Some (replicate 2147483649 1), Some (replicate 2147483649 9)],
      avail = []\<rparr>"

definition ex_huge0 :: heap where
  "ex_huge0 =
     \<lparr>slices = [Some \<lparr>head = 2, len = 0, cap = 3, elSize = 2147483649\<rparr>],
      bufs = [Some (replicate 2147483649 1), Some (replicate 2147483649 9),
              Some (replicate 6442450947 0)],
      avail = []\<rparr>"

definition ex_huge1 :: heap where
  "ex_huge1 =
     \<lparr>slices = [Some \<lparr>head = 2, len = 1, cap = 3, elSize = 2147483649\<rparr>],
      bufs = [Some (replicate 2147483649 1), Some (replicate 2147483649 9),
              Some (replicate 2147483649 1 @ replicate 4294967298 0)],
      avail = []\<rparr>"

definition ex_huge :: heap where
  "ex_huge =
     \<lparr>slices = [Some \<lparr>head = 2, len = 2, cap = 3, elSize = 2147483649\<rparr>],
      bufs = [Some (replicate 2147483649 1), Some (replicate 2147483649 9),
              Some (replicate 2147483649 1 @ replicate 2147483649 1 @ replicate 2147483649 0)],
      avail = []\<rparr>"

definition ex_huge_after :: heap where
  "ex_huge_after =
     \<lparr>slices = [Some \<lparr>head = 2, len = 3, cap = 3, elSize = 2147483649\<rparr>],
      bufs = [Some (replicate 2147483649 1), Some (replicate 2147483649 9),
              Some (replicate 2 1 @ replicate 2147483649 9 @ replicate 2147483647 1
                      @ replicate 2147483649 0)],
      avail = []\<rparr>"

section \<open>Properties\<close>

declare copy_up.simps [simp del] copy_down.simps [simp del] map_loop.simps [simp del]
  filter_loop.simps [simp del] reduce_loop.simps [simp del] each_loop.simps [simp del]
  array_loop.simps [simp del] extend_loop.simps [simp del]

lemma deref_Some [simp]: "deref h (Some a) = lookup (slices h) a"
  by (simp add: deref_def)

lemma deref_None [simp]: "deref h None = None"
  by (simp add: deref_def)

subsection \<open>Indexed access\<close>

text \<open>
  C1. For a slice with \<open>0 \<le> len\<close> and an index \<open>i\<close> of type \<^verbatim>\<open>int\<close>: when
  \<open>0 \<le> i < len\<close>, \<^verbatim>\<open>SliceGet\<close> at \<open>i\<close> and at \<open>i - len\<close> return the same pointer, the one
  to element \<open>i\<close>; \<^verbatim>\<open>SliceGet\<close> returns \<^verbatim>\<open>NULL\<close> exactly when the resolved index (\<open>i\<close> for
  \<open>i \<ge> 0\<close>, \<open>len + i\<close> for \<open>i < 0\<close>) is outside \<open>[0, len)\<close>, and is never undefined; in
  particular it returns \<^verbatim>\<open>NULL\<close> at \<open>len\<close> and at \<open>- len - 1\<close>.
\<close>

theorem SliceGet_index:
  assumes "lookup (slices h) a = Some s" and "0 \<le> len s" and "len s \<le> INT_MAX" and "in_int i"
  shows "(0 \<le> i \<and> i < len s \<longrightarrow>
            SliceGet (Some a) (i - len s) h = SliceGet (Some a) i h \<and>
            SliceGet (Some a) i h = Ret (Some (head s, u32 (i * int (elSize s)))))
       \<and> (SliceGet (Some a) i h = Ret None \<longleftrightarrow>
            \<not> (0 \<le> (if i \<ge> 0 then i else len s + i) \<and>
               (if i \<ge> 0 then i else len s + i) < len s))
       \<and> SliceGet (Some a) i h \<noteq> UB
       \<and> SliceGet (Some a) (len s) h = Ret None
       \<and> SliceGet (Some a) (- len s - 1) h = Ret None"
  using assms by (auto simp: SliceGet_def in_int_def INT_MAX_def INT_MIN_def)

theorem SliceGet_index_witness:
  "SliceGet (Some 0) (- 2) ex_heap = SliceGet (Some 0) 1 ex_heap \<and>
   SliceGet (Some 0) 1 ex_heap = Ret (Some (0, 4)) \<and>
   SliceGet (Some 0) 3 ex_heap = Ret None \<and>
   SliceGet (Some 0) (- 4) ex_heap = Ret None"
  using SliceGet_index [of ex_heap 0 ex_slice 1]
  by (simp add: ex_heap_def ex_slice_def lookup_def in_int_def INT_MAX_def INT_MIN_def u32_def)

subsection \<open>Stores, loads and the append step\<close>

lemma lookup_snoc: "lookup (xs @ [v]) a = (if a = length xs then v else lookup xs a)"
  by (auto simp: lookup_def nth_append)

lemma lookup_update: "lookup (xs[a := v]) b = (if a = b \<and> a < length xs then v else lookup xs b)"
  by (auto simp: lookup_def)

lemma lookup_Some_lt: "lookup xs a = Some v \<Longrightarrow> a < length xs"
  by (auto simp: lookup_def split: if_splits)

lemma u32_id: "0 \<le> x \<Longrightarrow> x < 4294967296 \<Longrightarrow> u32 x = nat x"
  by (simp add: u32_def)

lemma load_length: "load m p n = Some v \<Longrightarrow> length v = n"
  by (auto simp: load_def split: option.splits if_splits)

lemma take_drop_before:
  assumes "j + n \<le> off" and "off \<le> length bs"
  shows "take n (drop j (take off bs @ w)) = take n (drop j bs)"
  using assms by (simp add: take_drop min_def) 


lemma memcpy_RetD:
  assumes "memcpy (Some d) (Some p) n m = Ret m'"
  shows "\<not> overlap d p n \<and> (\<exists>v. load m p n = Some v \<and> store m d v = Some m')"
  using assms by (auto simp: memcpy_def split: if_splits option.splits)

lemma store_SomeD:
  assumes "store m d v = Some m'"
  shows "\<exists>bs. lookup m (fst d) = Some bs \<and> snd d + length v \<le> length bs \<and>
          m' = m[fst d := Some (take (snd d) bs @ v @ drop (snd d + length v) bs)]"
  using assms by (auto simp: store_def split: if_splits option.splits)

lemma SliceAppend_nogrow:
  assumes "lookup (slices h) a = Some s" and "len s \<noteq> cap s"
    and "SliceAppend (Some a) dat h = Ret (Some r, h')"
  shows "r = a \<and> in_int (len s + 1) \<and>
     (\<exists>m. memcpy (Some (head s, u32 (len s * int (elSize s)))) dat (elSize s) (bufs h) = Ret m \<and>
          h' = h\<lparr>slices := (slices h)[a := Some (s\<lparr>len := len s + 1\<rparr>)], bufs := m\<rparr>)"
  using assms by (auto simp: SliceAppend_def grow_def split: res.splits if_splits)

lemma SliceAppend_grow:
  assumes "lookup (slices h) a = Some s" and "len s = cap s"
    and "SliceAppend (Some a) dat h = Ret (Some r, h')"
  shows "r = a \<and> in_int (len s + 1) \<and> in_int ((cap s + 1) * 2) \<and> alloc_ok h \<and>
     (\<exists>bs m. lookup (bufs h) (head s) = Some bs \<and>
        memcpy (Some (length (bufs h), u32 (len s * int (elSize s)))) dat (elSize s)
          ((bufs h)[head s := None]
             @ [Some (take (realloc_size s) bs @ replicate (realloc_size s - length bs) 0)]) = Ret m \<and>
        h' = (tick h)\<lparr>slices := (slices h)[a := Some (s\<lparr>head := length (bufs h), cap := (cap s + 1) * 2, len := len s + 1\<rparr>)],
                 bufs := m\<rparr>)"
  using assms
  by (auto simp: SliceAppend_def grow_def realloc_def tick_def Let_def lookup_update
           split: res.splits if_splits option.splits prod.splits)


lemma valid_off:
  assumes "valid h a" and "lookup (slices h) a = Some s"
  shows "u32 (len s * int (elSize s)) = nat (len s) * elSize s"
    and "0 \<le> len s"
    and "\<exists>bs. lookup (bufs h) (head s) = Some bs \<and> nat (len s) * elSize s \<le> length bs"
proof -
  from assms have l: "0 \<le> len s" and w: "len s * int (elSize s) < 4294967296"
    by (auto simp: valid_def split: option.splits)
  from l have "0 \<le> len s * int (elSize s)" by simp
  with w have "u32 (len s * int (elSize s)) = nat (len s * int (elSize s))"
    by (simp add: u32_id)
  also have "\<dots> = nat (len s) * elSize s"
    using l by (simp add: nat_mult_distrib)
  finally show "u32 (len s * int (elSize s)) = nat (len s) * elSize s" .
  show "0 \<le> len s" by (rule l)
  from assms show "\<exists>bs. lookup (bufs h) (head s) = Some bs \<and> nat (len s) * elSize s \<le> length bs"
    by (auto simp: valid_def split: option.splits)
qed

lemma SliceAppend_post:
  assumes v: "valid h a" and s: "lookup (slices h) a = Some s"
    and bs: "lookup (bufs h) (head s) = Some bs"
    and app: "SliceAppend (Some a) (Some p) h = Ret (Some r, h')"
    and ld: "load (bufs h) p (elSize s) = Some v"
  shows "r = a \<and> in_int (len s + 1) \<and>
     slices h' = (slices h)[a := Some ((grown h s)\<lparr>len := len s + 1\<rparr>)] \<and>
     (\<exists>rest. lookup (bufs h') (head (grown h s)) = Some (take (nat (len s) * elSize s) bs @ v @ rest)) \<and>
     (\<forall>b. b \<noteq> head s \<and> b < length (bufs h) \<longrightarrow> lookup (bufs h') b = lookup (bufs h) b) \<and>
     length (bufs h) \<le> length (bufs h')"
proof -
  let ?e = "elSize s"
  let ?off = "nat (len s) * ?e"
  have off: "u32 (len s * int ?e) = ?off" and le: "?off \<le> length bs"
    using valid_off [OF v s] bs by auto
  have lv: "length v = ?e" using ld by (rule load_length)
  have hl: "head s < length (bufs h)" using bs by (rule lookup_Some_lt)
  show ?thesis
  proof (cases "len s = cap s")
    case False
    from SliceAppend_nogrow [OF s False app] obtain m where
      r: "r = a" "in_int (len s + 1)"
      and mc: "memcpy (Some (head s, ?off)) (Some p) ?e (bufs h) = Ret m"
      and h': "h' = h\<lparr>slices := (slices h)[a := Some (s\<lparr>len := len s + 1\<rparr>)], bufs := m\<rparr>"
      unfolding off by blast
    from memcpy_RetD [OF mc] ld have st: "store (bufs h) (head s, ?off) v = Some m" by auto
    from store_SomeD [OF st] bs lv
    have m: "m = (bufs h)[head s := Some (take ?off bs @ v @ drop (?off + ?e) bs)]" by auto
    show ?thesis using r h' m False hl
      by (auto simp: grown_def lookup_update)
  next
    case True
    define nb where "nb = take (realloc_size s) bs @ replicate (realloc_size s - length bs) 0"
    let ?m1 = "(bufs h)[head s := None] @ [Some nb]"
    from SliceAppend_grow [OF s True app] bs obtain m where
      r: "r = a" "in_int (len s + 1)"
      and mc: "memcpy (Some (length (bufs h), ?off)) (Some p) ?e ?m1 = Ret m"
      and h': "h' = (tick h)\<lparr>slices := (slices h)[a := Some (s\<lparr>head := length (bufs h), cap := (cap s + 1) * 2, len := len s + 1\<rparr>)], bufs := m\<rparr>"
      unfolding off nb_def by auto
    from memcpy_RetD [OF mc] obtain v1 where l1: "load ?m1 p ?e = Some v1"
      and st: "store ?m1 (length (bufs h), ?off) v1 = Some m" by blast
    from ld have pl: "fst p < length (bufs h)"
      by (auto simp: load_def split: option.splits dest: lookup_Some_lt)
    from l1 hl have pne: "fst p \<noteq> head s"
      by (auto simp: load_def lookup_snoc lookup_update split: option.splits if_splits)
    from pl pne have "load ?m1 p ?e = load (bufs h) p ?e"
      by (simp add: load_def lookup_snoc lookup_update)
    with l1 ld have v1: "v1 = v" by simp
    from store_SomeD [OF st] lv
    have fit: "?off + ?e \<le> length nb"
      and m: "m = ?m1[length (bufs h) := Some (take ?off nb @ v @ drop (?off + ?e) nb)]"
      by (auto simp: lookup_snoc v1)
    have "length nb = realloc_size s" by (simp add: nb_def)
    with fit have "?off \<le> realloc_size s" by simp
    with le have tk: "take ?off nb = take ?off bs" by (simp add: nb_def min_def)
    have g: "grown h s = s\<lparr>head := length (bufs h), cap := (cap s + 1) * 2\<rparr>"
      using True by (simp add: grown_def)
    have sl: "slices h' = (slices h)[a := Some ((grown h s)\<lparr>len := len s + 1\<rparr>)]"
      unfolding h' g by (simp add: tick_def)
    have bf: "bufs h' = ?m1[length (bufs h) := Some (take ?off bs @ v @ drop (?off + ?e) nb)]"
      unfolding h' m tk by simp
    have b1: "lookup (bufs h') (head (grown h s)) = Some (take ?off bs @ v @ drop (?off + ?e) nb)"
      unfolding bf g by (simp add: lookup_update)
    have b2: "\<forall>b. b \<noteq> head s \<and> b < length (bufs h) \<longrightarrow> lookup (bufs h') b = lookup (bufs h) b"
      unfolding bf by (auto simp: lookup_update lookup_snoc)
    have b3: "length (bufs h) \<le> length (bufs h')"
      unfolding bf by simp
    show ?thesis using r sl b1 b2 b3 by blast
  qed
qed


lemma elem_at_buf:
  assumes "lookup (slices h) a = Some s" and "lookup (bufs h) (head s) = Some bs"
    and "0 \<le> i" and "i < len s"
    and "nat i * elSize s + elSize s \<le> length bs"
    and "i * int (elSize s) < 4294967296"
  shows "elem_at h a i = Some (take (elSize s) (drop (nat i * elSize s) bs))"
proof -
  from assms(3) have "0 \<le> i * int (elSize s)" by simp
  with assms(6) have "u32 (i * int (elSize s)) = nat (i * int (elSize s))"
    by (simp add: u32_id)
  also have "\<dots> = nat i * elSize s"
    using assms(3) by (simp add: nat_mult_distrib)
  finally have off: "u32 (i * int (elSize s)) = nat i * elSize s" .
  show ?thesis
    using assms by (simp add: elem_at_def SliceGet_def load_def off)
qed

lemma index_bounds:
  assumes "0 \<le> i" and "i < l" and "l * int e < 4294967296" and "nat l * e \<le> n"
  shows "nat i * e + e \<le> nat l * e" and "nat i * e + e \<le> n" and "i * int e < 4294967296"
proof -
  from assms(1,2) have "Suc (nat i) \<le> nat l" by simp
  then have "Suc (nat i) * e \<le> nat l * e" by (rule mult_le_mono1)
  then show a: "nat i * e + e \<le> nat l * e" by simp
  with assms(4) show "nat i * e + e \<le> n" by simp
  from assms(2) have "i * int e \<le> l * int e" by (simp add: mult_right_mono)
  with assms(3) show "i * int e < 4294967296" by simp
qed

lemma SliceAppend_elems:
  assumes v: "valid h a" and s: "lookup (slices h) a = Some s"
    and ld: "load (bufs h) p (elSize s) = Some v"
    and app: "SliceAppend (Some a) (Some p) h = Ret (Some r, h')"
  shows "r = a \<and>
     (\<exists>s'. lookup (slices h') a = Some s' \<and> len s' = len s + 1 \<and> elSize s' = elSize s \<and>
           elem_at h' a (len s' - 1) = Some v) \<and>
     (\<forall>i. 0 \<le> i \<and> i < len s \<longrightarrow> elem_at h a i \<noteq> None \<and> elem_at h' a i = elem_at h a i)"
proof -
  let ?e = "elSize s"
  let ?off = "nat (len s) * ?e"
  from valid_off [OF v s] obtain bs where bs: "lookup (bufs h) (head s) = Some bs"
    and le: "?off \<le> length bs" and l0: "0 \<le> len s" by blast
  from v s have w: "len s * int ?e < 4294967296"
    by (auto simp: valid_def split: option.splits)
  define s' where "s' = (grown h s)\<lparr>len := len s + 1\<rparr>"
  from SliceAppend_post [OF v s bs app ld] obtain rest where
    r: "r = a" and sl: "slices h' = (slices h)[a := Some s']"
    and b: "lookup (bufs h') (head (grown h s)) = Some (take ?off bs @ v @ rest)"
    unfolding s'_def by blast
  have al: "a < length (slices h)" using s by (rule lookup_Some_lt)
  have s1: "lookup (slices h') a = Some s'" using al by (simp add: sl lookup_update)
  have e': "elSize s' = ?e" "len s' = len s + 1" "head s' = head (grown h s)"
    by (simp_all add: s'_def grown_def)
  have lv: "length v = ?e" using ld by (rule load_length)
  let ?bs' = "take ?off bs @ v @ rest"
  have b': "lookup (bufs h') (head s') = Some ?bs'" using b e' by simp
  have new: "elem_at h' a (len s) = Some v"
  proof -
    have "elem_at h' a (len s) = Some (take (elSize s') (drop (nat (len s) * elSize s') ?bs'))"
      using s1 b' l0 le w lv by (intro elem_at_buf) (simp_all add: e')
    then show ?thesis using le lv by (simp add: e')
  qed
  have old: "elem_at h a i \<noteq> None \<and> elem_at h' a i = elem_at h a i"
    if i: "0 \<le> i" "i < len s" for i
  proof -
    note ib = index_bounds [OF i w le]
    have 1: "elem_at h a i = Some (take ?e (drop (nat i * ?e) bs))"
      using s bs i ib by (intro elem_at_buf) simp_all
    have "elem_at h' a i = Some (take (elSize s') (drop (nat i * elSize s') ?bs'))"
      using s1 b' i ib le by (intro elem_at_buf) (simp_all add: e')
    also have "\<dots> = Some (take ?e (drop (nat i * ?e) bs))"
      by (simp only: e' take_drop_before [OF ib(1) le])
    finally show ?thesis using 1 by simp
  qed
  show ?thesis using r s1 e' new old by auto
qed

lemmas ex_defs = ex_heap_def ex_slice_def ex_full_def ex_start_def ex_one_def
  ex_empty_def

subsection \<open>Append\<close>

lemma SliceAppend_grow_block:
  assumes s: "lookup (slices h) a = Some s" and full: "len s = cap s"
    and app: "SliceAppend (Some a) (Some p) h = Ret (Some r, h')"
  shows "\<exists>s' nb. lookup (slices h') a = Some s' \<and> cap s' = (cap s + 1) * 2 \<and>
           elSize s' = elSize s \<and>
           lookup (bufs h') (head s') = Some nb \<and> length nb = realloc_size s"
proof -
  define nb where "nb bs = take (realloc_size s) bs @ replicate (realloc_size s - length bs) (0::byte)" for bs
  from SliceAppend_grow [OF s full app] obtain bs m where
    mc: "memcpy (Some (length (bufs h), u32 (len s * int (elSize s)))) (Some p) (elSize s)
           ((bufs h)[head s := None] @ [Some (nb bs)]) = Ret m"
    and h': "h' = (tick h)\<lparr>slices := (slices h)[a := Some (s\<lparr>head := length (bufs h), cap := (cap s + 1) * 2, len := len s + 1\<rparr>)], bufs := m\<rparr>"
    unfolding nb_def by blast
  have nl: "length (nb bs) = realloc_size s" by (simp add: nb_def)
  from memcpy_RetD [OF mc] obtain v where
    st: "store ((bufs h)[head s := None] @ [Some (nb bs)]) (length (bufs h), u32 (len s * int (elSize s))) v = Some m"
    by blast
  from store_SomeD [OF st] have
    "lookup m (length (bufs h)) =
       Some (take (u32 (len s * int (elSize s))) (nb bs) @ v @
             drop (u32 (len s * int (elSize s)) + length v) (nb bs))"
    and "u32 (len s * int (elSize s)) + length v \<le> length (nb bs)"
    by (auto simp: lookup_snoc lookup_update)
  then have "\<exists>b. lookup m (length (bufs h)) = Some b \<and> length b = realloc_size s"
    using nl by simp
  moreover have "a < length (slices h)" using s by (rule lookup_Some_lt)
  ultimately show ?thesis unfolding h' by (auto simp: lookup_update tick_def)
qed

lemma realloc_size_enough:
  assumes "0 \<le> cap s" and "(cap s + int (elSize s)) * int (elSize s) * 2 < 2 ^ 32"
  shows "nat ((cap s + 1) * 2) * elSize s \<le> realloc_size s"
proof -
  have "0 \<le> (cap s + int (elSize s)) * int (elSize s) * 2" using assms(1) by simp
  with assms(2) have "realloc_size s = nat ((cap s + int (elSize s)) * int (elSize s) * 2)"
    by (simp add: realloc_size_def u32_id)
  also have "\<dots> = (nat (cap s) + elSize s) * elSize s * 2"
    using assms(1) by (simp add: nat_mult_distrib nat_add_distrib)
  finally have r: "realloc_size s = (nat (cap s) + elSize s) * elSize s * 2" .
  have n: "nat ((cap s + 1) * 2) = (nat (cap s) + 1) * 2"
    using assms(1) by (simp add: nat_mult_distrib nat_add_distrib)
  show ?thesis
  proof (cases "elSize s = 0")
    case True
    then show ?thesis by simp
  next
    case False
    then have "nat (cap s) + 1 \<le> nat (cap s) + elSize s" by simp
    then have "(nat (cap s) + 1) * elSize s \<le> (nat (cap s) + elSize s) * elSize s"
      by (rule mult_le_mono1)
    then show ?thesis unfolding r n by simp
  qed
qed

text \<open>
  Where the \<^verbatim>\<open>unsigned int\<close> product \<open>(cap + elSize) * elSize * 2\<close> does not wrap, the
  request covers the new capacity, and a successful growing append to a valid slice
  leaves a buffer that holds the new capacity and keeps every earlier element.
\<close>

lemma growth_enough_without_wrap:
  assumes "0 \<le> cap s" and "(cap s + int (elSize s)) * int (elSize s) * 2 < 2 ^ 32"
  shows "nat ((cap s + 1) * 2) * elSize s \<le> realloc_size s \<and>
    (\<forall>h a p v r h'.
       valid h a \<and> lookup (slices h) a = Some s \<and> len s = cap s \<and>
       load (bufs h) p (elSize s) = Some v \<and>
       SliceAppend (Some a) (Some p) h = Ret (Some r, h') \<longrightarrow>
       (\<exists>s' nb. lookup (slices h') a = Some s' \<and> lookup (bufs h') (head s') = Some nb \<and>
                nat (cap s') * elSize s' \<le> length nb) \<and>
       (\<forall>i. 0 \<le> i \<and> i < len s \<longrightarrow>
              elem_at h a i \<noteq> None \<and> elem_at h' a i = elem_at h a i))"
proof (intro conjI allI impI)
  show "nat ((cap s + 1) * 2) * elSize s \<le> realloc_size s"
    using assms by (rule realloc_size_enough)
next
  fix h a p v r h'
  assume a: "valid h a \<and> lookup (slices h) a = Some s \<and> len s = cap s \<and>
       load (bufs h) p (elSize s) = Some v \<and>
       SliceAppend (Some a) (Some p) h = Ret (Some r, h')"
  then have s: "lookup (slices h) a = Some s" and f: "len s = cap s"
    and app: "SliceAppend (Some a) (Some p) h = Ret (Some r, h')" by simp_all
  from SliceAppend_grow_block [OF s f app] realloc_size_enough [OF assms]
  show "\<exists>s' nb. lookup (slices h') a = Some s' \<and> lookup (bufs h') (head s') = Some nb \<and>
                nat (cap s') * elSize s' \<le> length nb"
    by auto
next
  fix h a p v r h' i
  assume a: "valid h a \<and> lookup (slices h) a = Some s \<and> len s = cap s \<and>
       load (bufs h) p (elSize s) = Some v \<and>
       SliceAppend (Some a) (Some p) h = Ret (Some r, h')"
    and i: "0 \<le> i \<and> i < len s"
  then have "valid h a" and "lookup (slices h) a = Some s"
    and "load (bufs h) p (elSize s) = Some v"
    and "SliceAppend (Some a) (Some p) h = Ret (Some r, h')" by simp_all
  from SliceAppend_elems [OF this] i
  show "elem_at h a i \<noteq> None" and "elem_at h' a i = elem_at h a i" by blast+
qed

subsection \<open>Appends whose byte arithmetic wraps\<close>

text \<open>
  The byte counts of \<^verbatim>\<open>SliceAppend\<close> are computed in \<^verbatim>\<open>unsigned int\<close>: the size passed to
  \<^verbatim>\<open>realloc\<close>, \<open>(cap + elSize) * elSize * 2\<close>, and the offset of the new element,
  \<open>len * elSize\<close>. Both wrap modulo \<open>2 ^ 32\<close>. The example states are evaluated here.
\<close>

lemmas eval_defs = SliceAppend_def grow_def realloc_def realloc_size_def alloc_ok_def tick_def
  memcpy_def overlap_def load_def store_def lookup_def u32_def in_int_def INT_MAX_def
  INT_MIN_def Let_def

lemmas slice_defs = SliceSlice_def NewSlice_def malloc_Slice_def calloc_def malloc_def
  copy_down.simps copy_up.simps copy_elem_def SliceGet_def elem_at_def

lemma ex_wide_append:
  "SliceAppend (Some 0) (Some (1, 0)) ex_wide = Ret (Some 0, ex_wide_grown)"
  by (simp add: ex_wide_def ex_wide_slice_def ex_wide_grown_def eval_defs)

lemma ex_wide_grown_append:
  "SliceAppend (Some 0) (Some (1, 0)) ex_wide_grown = UB"
  by (simp add: ex_wide_grown_def eval_defs)

lemma ex_wide_sizes:
  "realloc_size ex_wide_slice = 131072"
  "(cap ex_wide_slice + int (elSize ex_wide_slice)) * int (elSize ex_wide_slice) * 2 = 8590065664"
  "nat ((cap ex_wide_slice + 1) * 2) * elSize ex_wide_slice = 262144"
  "lookup (slices ex_wide) 0 = Some ex_wide_slice"
  "len ex_wide_slice = cap ex_wide_slice"
  "map_option length (lookup (bufs ex_wide_grown) 2) = Some 131072"
  "map_option cap (lookup (slices ex_wide_grown) 0) = Some 4"
  "map_option head (lookup (slices ex_wide_grown) 0) = Some 2"
  "map_option (\<lambda>s. nat (cap s) * elSize s) (lookup (slices ex_wide_grown) 0) = Some 262144"
  by (simp_all add: ex_wide_def ex_wide_slice_def ex_wide_grown_def realloc_size_def u32_def
        lookup_def)

lemma ex_huge_new: "NewSlice 2147483649 3 ex_huge_start = (Some 0, ex_huge0)"
  by (simp add: NewSlice_def malloc_Slice_def calloc_def malloc_def alloc_ok_def tick_def
        u32_def ex_huge_start_def ex_huge0_def)

lemma ex_huge_append1: "SliceAppend (Some 0) (Some (0, 0)) ex_huge0 = Ret (Some 0, ex_huge1)"
  by (simp add: ex_huge0_def ex_huge1_def eval_defs)

lemma ex_huge_append2: "SliceAppend (Some 0) (Some (0, 0)) ex_huge1 = Ret (Some 0, ex_huge)"
  by (simp add: ex_huge1_def ex_huge_def eval_defs)

lemma ex_huge_append3: "SliceAppend (Some 0) (Some (1, 0)) ex_huge = Ret (Some 0, ex_huge_after)"
  by (simp add: ex_huge_def ex_huge_after_def eval_defs)

lemma ex_huge_elems:
  "map_option (\<lambda>v. v ! 2) (elem_at ex_huge 0 0) = Some 1"
  "map_option (\<lambda>v. v ! 2) (elem_at ex_huge_after 0 0) = Some 9"
  "elem_at ex_huge_after 0 2 = Some (replicate 2147483649 9)"
  "map_option len (lookup (slices ex_huge) 0) = Some 2"
  "map_option len (lookup (slices ex_huge_after) 0) = Some 3"
  "map_option (\<lambda>s. int (elSize s) * len s) (lookup (slices ex_huge) 0) = Some 4294967298"
  by (simp_all add: ex_huge_def ex_huge_after_def elem_at_def SliceGet_def load_def lookup_def
        u32_def nth_append)

text \<open>
  C8. The claim gives the request as exactly \<open>(cap + elSize) * elSize * 2\<close> bytes. On the
  full slice of one 65536-byte element (\<open>len = cap = 1\<close>) that product is 8590065664,
  but \<^verbatim>\<open>SliceAppend\<close> asks \<^verbatim>\<open>realloc\<close> for 131072 bytes, the product modulo \<open>2 ^ 32\<close>:
  the append succeeds, the new block has 131072 bytes, and the capacity is set to
  \<open>(1 + 1) * 2 = 4\<close>.
\<close>

theorem SliceAppend_request_wraps:
  "lookup (slices ex_wide) 0 = Some ex_wide_slice \<and>
   len ex_wide_slice = cap ex_wide_slice \<and>
   (cap ex_wide_slice + int (elSize ex_wide_slice)) * int (elSize ex_wide_slice) * 2
     = 8590065664 \<and>
   realloc_size ex_wide_slice = 131072 \<and>
   SliceAppend (Some 0) (Some (1, 0)) ex_wide = Ret (Some 0, ex_wide_grown) \<and>
   map_option head (lookup (slices ex_wide_grown) 0) = Some 2 \<and>
   map_option length (lookup (bufs ex_wide_grown) 2) = Some 131072 \<and>
   map_option cap (lookup (slices ex_wide_grown) 0) = Some 4"
  using ex_wide_sizes ex_wide_append by simp

text \<open>
  C10. The claim says that the request covers the new capacity. On the same slice the
  request, 131072 bytes, is below the 262144 bytes that the new capacity 4 needs: the
  growing append succeeds and leaves a block of 131072 bytes under a capacity of 4
  elements, and the next append, which the capacity allows without growth, writes past
  the end of the block.
\<close>

theorem growth_under_allocates:
  "realloc_size ex_wide_slice = 131072 \<and>
   nat ((cap ex_wide_slice + 1) * 2) * elSize ex_wide_slice = 262144 \<and>
   realloc_size ex_wide_slice < nat ((cap ex_wide_slice + 1) * 2) * elSize ex_wide_slice \<and>
   SliceAppend (Some 0) (Some (1, 0)) ex_wide = Ret (Some 0, ex_wide_grown) \<and>
   map_option length (lookup (bufs ex_wide_grown) 2) = Some 131072 \<and>
   map_option (\<lambda>s. nat (cap s) * elSize s) (lookup (slices ex_wide_grown) 0) = Some 262144 \<and>
   SliceAppend (Some 0) (Some (1, 0)) ex_wide_grown = UB"
  using ex_wide_sizes ex_wide_append ex_wide_grown_append by simp

text \<open>
  C7. The claim says that a successful append leaves the earlier elements unchanged.
  With elements of \<open>2 ^ 31 + 1\<close> bytes, \<^verbatim>\<open>NewSlice\<close> with capacity 3 and two appends leave
  a slice of length 2 whose element 0 has byte 2 equal to 1. The third append succeeds
  and makes the length 3, but it stores the new element at byte offset
  \<open>2 * (2 ^ 31 + 1) mod 2 ^ 32 = 2\<close>: afterwards byte 2 of element 0 is 9. The element
  read back at index 2 is the appended one, because \<^verbatim>\<open>SliceGet\<close> wraps in the same way.
  Also, on the slice of 65536-byte elements the growing append returns the slice with a
  block too small for its capacity, and the append after it writes outside the block.
\<close>

theorem SliceAppend_overwrites:
  "NewSlice 2147483649 3 ex_huge_start = (Some 0, ex_huge0) \<and>
   SliceAppend (Some 0) (Some (0, 0)) ex_huge0 = Ret (Some 0, ex_huge1) \<and>
   SliceAppend (Some 0) (Some (0, 0)) ex_huge1 = Ret (Some 0, ex_huge) \<and>
   SliceAppend (Some 0) (Some (1, 0)) ex_huge = Ret (Some 0, ex_huge_after) \<and>
   map_option len (lookup (slices ex_huge) 0) = Some 2 \<and>
   map_option len (lookup (slices ex_huge_after) 0) = Some 3 \<and>
   elem_at ex_huge_after 0 2 = Some (replicate 2147483649 9) \<and>
   map_option (\<lambda>v. v ! 2) (elem_at ex_huge 0 0) = Some 1 \<and>
   map_option (\<lambda>v. v ! 2) (elem_at ex_huge_after 0 0) = Some 9 \<and>
   SliceAppend (Some 0) (Some (1, 0)) ex_wide = Ret (Some 0, ex_wide_grown) \<and>
   SliceAppend (Some 0) (Some (1, 0)) ex_wide_grown = UB"
  using ex_huge_new ex_huge_append1 ex_huge_append2 ex_huge_append3 ex_huge_elems
    ex_wide_append ex_wide_grown_append
  by simp

subsection \<open>Allocation of a new slice\<close>

lemma NewSlice_cases:
  assumes "NewSlice e c h = (r, h1)"
  shows "(r = None \<and> bufs h1 = bufs h \<and> (slices h1 = slices h \<or> slices h1 = slices h @ [None]))
       \<or> (r = Some (length (slices h)) \<and> 0 \<le> c \<and> alloc_ok h \<and> alloc_ok (tick h) \<and>
          slices h1 = slices h @ [Some \<lparr>head = length (bufs h), len = 0, cap = c, elSize = e\<rparr>] \<and>
          bufs h1 = bufs h @ [Some (replicate (u32 c * e) 0)] \<and>
          avail h1 = tl (tl (avail h)))"
  using assms
  by (auto simp: NewSlice_def malloc_Slice_def calloc_def malloc_def tick_def alloc_ok_def
           split: if_splits prod.splits option.splits)

lemma NewSlice_None_keeps:
  assumes "NewSlice e c h = (None, h1)" and "lookup (slices h) a = Some s"
  shows "lookup (slices h1) a = Some s"
  using NewSlice_cases [OF assms(1)] assms(2) lookup_Some_lt [OF assms(2)]
  by (auto simp: lookup_snoc)

subsection \<open>Map when the result cannot be allocated\<close>

text \<open>
  C2. \<^verbatim>\<open>SliceMap\<close> does not test the result of \<^verbatim>\<open>NewSlice\<close>: when the allocation of the
  result slice fails (the struct or its buffer) and the source slice is not empty, the
  first \<^verbatim>\<open>SliceAppend\<close> dereferences \<^verbatim>\<open>NULL\<close>, so the call is undefined behaviour
  instead of a \<^verbatim>\<open>NULL\<close> return.
\<close>

theorem SliceMap_alloc_failure:
  assumes "lookup (slices h) a = Some s" and "0 < len s"
    and "fst (NewSlice elSz (len s) h) = None"
  shows "SliceMap (Some a) elSz f h = UB"
proof -
  obtain h1 where n: "NewSlice elSz (len s) h = (None, h1)"
    using assms(3) by (cases "NewSlice elSz (len s) h") auto
  have s1: "lookup (slices h1) a = Some s"
    using n assms(1) by (rule NewSlice_None_keeps)
  have "map_loop f (Some a) None 0 h1 = UB"
    using s1 assms(2)
    by (subst map_loop.simps) (simp add: SliceGet_def SliceAppend_def)
  then show ?thesis using assms(1) n by (simp add: SliceMap_def)
qed

theorem SliceMap_alloc_failure_witness:
  "lookup (slices (ex_heap\<lparr>avail := [False]\<rparr>)) 0 = Some ex_slice \<and>
   fst (NewSlice 4 3 (ex_heap\<lparr>avail := [False]\<rparr>)) = None \<and>
   fst (NewSlice 4 3 (ex_heap\<lparr>avail := [True, False]\<rparr>)) = None \<and>
   SliceMap (Some 0) 4 (\<lambda>p m. (p, m)) (ex_heap\<lparr>avail := [False]\<rparr>) = UB \<and>
   SliceMap (Some 0) 4 (\<lambda>p m. (p, m)) (ex_heap\<lparr>avail := [True, False]\<rparr>) = UB"
proof -
  have s: "lookup (slices (ex_heap\<lparr>avail := b\<rparr>)) 0 = Some ex_slice" for b
    by (simp add: ex_defs lookup_def)
  have l: "0 < len ex_slice" by (simp add: ex_defs)
  have n1: "fst (NewSlice 4 (len ex_slice) (ex_heap\<lparr>avail := [False]\<rparr>)) = None"
    by (simp add: NewSlice_def malloc_Slice_def alloc_ok_def)
  have n2: "fst (NewSlice 4 (len ex_slice) (ex_heap\<lparr>avail := [True, False]\<rparr>)) = None"
    by (simp add: NewSlice_def malloc_Slice_def calloc_def malloc_def alloc_ok_def tick_def ex_defs)
  from SliceMap_alloc_failure [OF s l n1, of "\<lambda>p m. (p, m)"]
    SliceMap_alloc_failure [OF s l n2, of "\<lambda>p m. (p, m)"] s n1 n2
  show ?thesis by (simp add: ex_slice_def)
qed


lemma reduce_loop_fold:
  assumes "lookup (slices h) a = Some s" and "len s \<le> INT_MAX" and "0 \<le> i" and "i \<le> len s"
  shows "reduce_loop f (Some a) acc i h =
           (case left_fold f (map (\<lambda>k. Some (head s, u32 (int k * int (elSize s))))
                                 [nat i..<nat (len s)]) acc (bufs h) of
              (r, m) \<Rightarrow> Ret (r, h\<lparr>bufs := m\<rparr>))"
  using assms
proof (induction "nat (len s - i)" arbitrary: i acc h)
  case 0
  then have "i = len s" by simp
  then show ?case using "0.prems"(1)
    by (subst reduce_loop.simps) simp
next
  case (Suc n)
  then have lt: "i < len s" by simp
  let ?d = "Some (head s, u32 (i * int (elSize s)))"
  let ?h = "h\<lparr>bufs := snd (f acc ?d (bufs h))\<rparr>"
  have g: "SliceGet (Some a) i h = Ret ?d"
    using Suc.prems lt by (simp add: SliceGet_def)
  have ii: "in_int (i + 1)"
    using Suc.prems lt by (simp add: in_int_def INT_MIN_def)
  have step: "reduce_loop f (Some a) acc i h =
                reduce_loop f (Some a) (fst (f acc ?d (bufs h))) (i + 1) ?h"
    using Suc.prems(1) lt g ii by (subst reduce_loop.simps) simp
  have ih: "reduce_loop f (Some a) (fst (f acc ?d (bufs h))) (i + 1) ?h =
           (case left_fold f (map (\<lambda>k. Some (head s, u32 (int k * int (elSize s))))
                                 [nat (i + 1)..<nat (len s)])
                   (fst (f acc ?d (bufs h))) (bufs ?h) of
              (r, m) \<Rightarrow> Ret (r, ?h\<lparr>bufs := m\<rparr>))"
    using Suc.hyps(2) Suc.prems lt by (intro Suc.hyps(1)) simp_all
  have l: "[nat i..<nat (len s)] = nat i # [nat (i + 1)..<nat (len s)]"
    using Suc.prems(3) lt by (simp add: upt_conv_Cons nat_add_distrib)
  show ?case unfolding step ih l using Suc.prems(3) by simp
qed

subsection \<open>Reduce\<close>

text \<open>
  C6. \<^verbatim>\<open>SliceReduce\<close> on an empty slice returns \<^verbatim>\<open>NULL\<close>; on a non-empty slice it is the
  left fold of the combiner over the pointers to the elements at indices \<open>1, \<dots>, len - 1\<close>,
  in that order, seeded with the pointer to element 0; on a one-element slice it returns
  the pointer to that element and changes nothing; and with the summation combiner over
  the integers 1, 2, 3 the returned pointer holds 6.
\<close>

theorem SliceReduce_fold:
  assumes "lookup (slices h) a = Some s" and "len s \<le> INT_MAX"
  shows "(len s = 0 \<longrightarrow> SliceReduce (Some a) f h = Ret (None, h))
     \<and> (0 < len s \<longrightarrow>
          SliceReduce (Some a) f h =
            (case left_fold f (map (\<lambda>k. Some (head s, u32 (int k * int (elSize s))))
                                  [1..<nat (len s)]) (Some (head s, 0)) (bufs h) of
               (r, m) \<Rightarrow> Ret (r, h\<lparr>bufs := m\<rparr>)))
     \<and> (len s = 1 \<longrightarrow> SliceReduce (Some a) f h = Ret (Some (head s, 0), h))
     \<and> map (\<lambda>i. map_option int_of (elem_at ex_heap 0 i)) [0, 1, 2] = [Some 1, Some 2, Some 3]
     \<and> (case SliceReduce (Some 0) (sum_ints (1, 0)) ex_heap of
          Ret (Some p, h') \<Rightarrow> map_option int_of (load (bufs h') p 4) = Some 6
        | _ \<Rightarrow> False)"
proof (intro conjI impI)
  assume "len s = 0"
  then show "SliceReduce (Some a) f h = Ret (None, h)"
    using assms(1)
    by (simp add: SliceReduce_def SliceGet_def) (subst reduce_loop.simps, simp)
next
  assume p: "0 < len s"
  then have g: "SliceGet (Some a) 0 h = Ret (Some (head s, 0))"
    using assms(1) by (simp add: SliceGet_def u32_def)
  from p have "1 \<le> len s" by simp
  from reduce_loop_fold [OF assms _ this, of f "Some (head s, 0)"] g
  show "SliceReduce (Some a) f h =
            (case left_fold f (map (\<lambda>k. Some (head s, u32 (int k * int (elSize s))))
                                  [1..<nat (len s)]) (Some (head s, 0)) (bufs h) of
               (r, m) \<Rightarrow> Ret (r, h\<lparr>bufs := m\<rparr>))"
    by (simp add: SliceReduce_def)
next
  assume p: "len s = 1"
  then have g: "SliceGet (Some a) 0 h = Ret (Some (head s, 0))"
    using assms(1) by (simp add: SliceGet_def u32_def)
  from reduce_loop_fold [OF assms, of 1 f "Some (head s, 0)"] g p
  show "SliceReduce (Some a) f h = Ret (Some (head s, 0), h)"
    by (simp add: SliceReduce_def)
next
  have "SliceReduce (Some 0) (sum_ints (1, 0)) ex_heap =
          Ret (Some (1, 0), ex_heap\<lparr>bufs := [Some [1,0,0,0, 2,0,0,0, 3,0,0,0, 0,0,0,0], Some [6,0,0,0]]\<rparr>)"
    by (simp add: SliceReduce_def SliceGet_def reduce_loop.simps sum_ints_def ex_defs lookup_def
          load_def store_def le32_def int_of_def u32_def in_int_def INT_MAX_def INT_MIN_def)
  then show "case SliceReduce (Some 0) (sum_ints (1, 0)) ex_heap of
          Ret (Some p, h') \<Rightarrow> map_option int_of (load (bufs h') p 4) = Some 6
        | _ \<Rightarrow> False"
    by (simp add: load_def lookup_def int_of_def)
next
  show "map (\<lambda>i. map_option int_of (elem_at ex_heap 0 i)) [0, 1, 2] = [Some 1, Some 2, Some 3]"
    by (simp add: elem_at_def SliceGet_def ex_defs lookup_def load_def int_of_def u32_def)
qed

theorem SliceReduce_fold_witness:
  "SliceReduce (Some 0) (sum_ints (1, 0)) ex_heap =
     (case left_fold (sum_ints (1, 0)) [Some (0, 4), Some (0, 8)] (Some (0, 0)) (bufs ex_heap) of
        (r, m) \<Rightarrow> Ret (r, ex_heap\<lparr>bufs := m\<rparr>)) \<and>
   SliceReduce (Some 0) (sum_ints (1, 0)) ex_full = Ret (Some (0, 0), ex_full)"
proof -
  have s: "lookup (slices ex_heap) 0 = Some ex_slice" by (simp add: ex_defs lookup_def)
  have m: "len ex_slice \<le> INT_MAX" by (simp add: ex_defs INT_MAX_def)
  have l: "[1..<nat (len ex_slice)] = [1, 2]" by (simp add: ex_defs upt_conv_Cons)
  have s2: "lookup (slices ex_full) 0 = Some \<lparr>head = 0, len = 1, cap = 1, elSize = 4\<rparr>"
    by (simp add: ex_defs lookup_def)
  have m2: "len \<lparr>head = 0, len = 1, cap = 1, elSize = 4\<rparr> \<le> INT_MAX" by (simp add: INT_MAX_def)
  from SliceReduce_fold [OF s m, of "sum_ints (1, 0)"] SliceReduce_fold [OF s2 m2, of "sum_ints (1, 0)"]
  show ?thesis unfolding l by (simp add: ex_slice_def u32_def)
qed

subsection \<open>The invariant of length and capacity\<close>

lemma len_le_cap_lookup:
  "len_le_cap h \<Longrightarrow> lookup (slices h) a = Some s \<Longrightarrow> 0 \<le> len s \<and> len s \<le> cap s"
  by (auto simp: len_le_cap_def lookup_def list_all_length split: if_splits)

lemma len_le_cap_update:
  assumes "len_le_cap h" and "slices h' = (slices h)[a := x]"
    and "case x of None \<Rightarrow> True | Some s \<Rightarrow> 0 \<le> len s \<and> len s \<le> cap s"
  shows "len_le_cap h'"
proof -
  have "set ((slices h)[a := x]) \<subseteq> insert x (set (slices h))"
    by (rule set_update_subset_insert)
  with assms show ?thesis
    unfolding len_le_cap_def list_all_iff by auto
qed

lemma NewSlice_inv:
  assumes "len_le_cap h" and "NewSlice e c h = (r, h')"
  shows "len_le_cap h'"
  using NewSlice_cases [OF assms(2)] assms(1)
  by (auto simp: len_le_cap_def)

lemma DeleteSlice_inv:
  assumes "len_le_cap h" and "DeleteSlice sp h = Ret h'"
  shows "len_le_cap h'"
proof -
  from assms(2) have "slices h' = (slices h)[the sp := None]"
    by (auto simp: DeleteSlice_def free_buf_def split: option.splits res.splits)
  with assms(1) show ?thesis by (rule len_le_cap_update) simp
qed

lemma SliceAppend_None:
  assumes "SliceAppend sp dat h = Ret (None, h')"
  shows "slices h' = slices h \<and>
     (bufs h' = bufs h \<or>
      (\<exists>a s. sp = Some a \<and> lookup (slices h) a = Some s \<and> bufs h' = (bufs h)[head s := None]))"
proof (cases sp)
  case None
  with assms show ?thesis by (simp add: SliceAppend_def)
next
  case (Some a)
  with assms obtain s where s: "lookup (slices h) a = Some s"
    by (cases "lookup (slices h) a") (simp_all add: SliceAppend_def)
  show ?thesis
  proof (cases "grow a s h")
    case UB
    with assms Some s show ?thesis by (simp add: SliceAppend_def)
  next
    case (Ret x)
    obtain s1 h1 where x: "x = (s1, h1)" by (cases x)
    show ?thesis
    proof (cases s1)
      case None
      with assms Some s Ret x have "h' = h1" by (simp add: SliceAppend_def)
      moreover from Ret x None have
        "slices h1 = slices h \<and> (bufs h1 = bufs h \<or> bufs h1 = (bufs h)[head s := None])"
        by (auto simp: grow_def realloc_def tick_def Let_def
                 split: if_splits option.splits)
      ultimately show ?thesis using \<open>sp = Some a\<close> s by auto
    next
      case (Some s2)
      with assms \<open>sp = Some a\<close> s Ret x show ?thesis
        by (simp add: SliceAppend_def split: res.splits if_splits)
    qed
  qed
qed

lemma SliceAppend_slices:
  assumes "SliceAppend sp dat h = Ret (r, h')"
  shows "slices h' = slices h \<or>
     (\<exists>a s. sp = Some a \<and> lookup (slices h) a = Some s \<and> in_int (len s + 1) \<and>
        slices h' = (slices h)[a := Some ((grown h s)\<lparr>len := len s + 1\<rparr>)])"
proof (cases r)
  case None
  with assms show ?thesis by (simp add: SliceAppend_None)
next
  case (Some b)
  from assms obtain a where sp: "sp = Some a"
    by (cases sp) (simp_all add: SliceAppend_def)
  from assms sp obtain s where s: "lookup (slices h) a = Some s"
    by (cases "lookup (slices h) a") (simp_all add: SliceAppend_def)
  from assms sp Some have app: "SliceAppend (Some a) dat h = Ret (Some b, h')" by simp
  show ?thesis
  proof (cases "len s = cap s")
    case True
    from SliceAppend_grow [OF s True app] sp s True show ?thesis
      by (auto simp: grown_def tick_def)
  next
    case False
    from SliceAppend_nogrow [OF s False app] sp s False show ?thesis
      by (auto simp: grown_def)
  qed
qed

lemma SliceAppend_inv:
  assumes "len_le_cap h" and "SliceAppend sp dat h = Ret (r, h')"
  shows "len_le_cap h'"
proof -
  from SliceAppend_slices [OF assms(2)] show ?thesis
  proof
    assume "slices h' = slices h"
    with assms(1) show ?thesis by (simp add: len_le_cap_def)
  next
    assume "\<exists>a s. sp = Some a \<and> lookup (slices h) a = Some s \<and> in_int (len s + 1) \<and>
        slices h' = (slices h)[a := Some ((grown h s)\<lparr>len := len s + 1\<rparr>)]"
    then obtain a s where s: "lookup (slices h) a = Some s"
      and h': "slices h' = (slices h)[a := Some ((grown h s)\<lparr>len := len s + 1\<rparr>)]" by blast
    from len_le_cap_lookup [OF assms(1) s] have "0 \<le> len s" "len s \<le> cap s" by simp_all
    then have "case Some ((grown h s)\<lparr>len := len s + 1\<rparr>) of None \<Rightarrow> True
               | Some s \<Rightarrow> 0 \<le> len s \<and> len s \<le> cap s"
      by (auto simp: grown_def)
    then show ?thesis
      by (rule len_le_cap_update [OF assms(1) h'])
  qed
qed

lemma copy_elem_inv:
  assumes "len_le_cap h" and "copy_elem sp ret i h = Ret (r, h')"
  shows "len_le_cap h'"
proof (cases "SliceGet sp i h")
  case UB
  with assms(2) show ?thesis by (simp add: copy_elem_def)
next
  case (Ret p)
  show ?thesis
  proof (cases p)
    case None
    with Ret assms(2) have "DeleteSlice ret h = Ret h'"
      by (simp add: copy_elem_def split: res.splits)
    with assms(1) show ?thesis by (rule DeleteSlice_inv)
  next
    case (Some d)
    show ?thesis
    proof (cases "SliceAppend ret (Some d) h")
      case UB
      with Ret Some assms(2) show ?thesis by (simp add: copy_elem_def)
    next
      case app: (Ret x)
      obtain q h1 where x: "x = (q, h1)" by (cases x)
      from assms(1) app x have inv1: "len_le_cap h1" by (simp add: SliceAppend_inv)
      show ?thesis
      proof (cases q)
        case None
        with Ret Some app x assms(2) have "DeleteSlice ret h1 = Ret h'"
          by (simp add: copy_elem_def split: res.splits)
        with inv1 show ?thesis by (rule DeleteSlice_inv)
      next
        case (Some b)
        with Ret \<open>p = Some d\<close> app x assms(2) have "h' = h1"
          by (simp add: copy_elem_def)
        with inv1 show ?thesis by simp
      qed
    qed
  qed
qed

lemma copy_up_inv:
  "len_le_cap h \<Longrightarrow> copy_up sp ret i i2 step h = Ret (r, h') \<Longrightarrow> len_le_cap h'"
proof (induction sp ret i i2 step h rule: copy_up.induct)
  case (1 sp ret i i2 step h)
  show ?case
  proof (cases "i < i2")
    case False
    with "1.prems" show ?thesis by (simp add: copy_up.simps)
  next
    case True
    show ?thesis
    proof (cases "copy_elem sp ret i h")
      case UB
      with True "1.prems"(2) show ?thesis by (simp add: copy_up.simps)
    next
      case (Ret x)
      obtain q h1 where x: "x = (q, h1)" by (cases x)
      from "1.prems"(1) Ret x have inv1: "len_le_cap h1" by (simp add: copy_elem_inv)
      show ?thesis
      proof (cases q)
        case None
        with True Ret x "1.prems"(2) have "h' = h1" by (simp add: copy_up.simps)
        with inv1 show ?thesis by simp
      next
        case (Some b)
        with True Ret x "1.prems"(2) have c: "0 < step \<and> in_int (i + step)"
          and rec: "copy_up sp ret (i + step) i2 step h1 = Ret (r, h')"
          by (simp_all add: copy_up.simps [of sp ret i] split: if_splits)
        show ?thesis
          by (rule "1.IH" [of x q h1 b]) (use True Ret x Some c inv1 rec in simp_all)
      qed
    qed
  qed
qed


lemma copy_down_inv:
  "len_le_cap h \<Longrightarrow> copy_down sp ret i i1 step h = Ret (r, h') \<Longrightarrow> len_le_cap h'"
proof (induction sp ret i i1 step h rule: copy_down.induct)
  case (1 sp ret i i1 step h)
  show ?case
  proof (cases "i1 \<le> i")
    case False
    with "1.prems" show ?thesis by (simp add: copy_down.simps)
  next
    case True
    show ?thesis
    proof (cases "copy_elem sp ret i h")
      case UB
      with True "1.prems"(2) show ?thesis by (simp add: copy_down.simps)
    next
      case (Ret x)
      obtain q h1 where x: "(q, h1) = x" by (cases x) auto
      from "1.prems"(1) Ret x have inv1: "len_le_cap h1" by (auto simp: copy_elem_inv)
      show ?thesis
      proof (cases q)
        case None
        with True Ret x "1.prems"(2) have "h' = h1" by (auto simp: copy_down.simps)
        with inv1 show ?thesis by simp
      next
        case (Some b)
        with True Ret x "1.prems"(2) have c: "step < 0 \<and> in_int (i + step)"
          and rec: "copy_down sp ret (i + step) i1 step h1 = Ret (r, h')"
          by (auto simp: copy_down.simps [of sp ret i] split: if_splits)
        from "1.IH" [OF True Ret x Some c inv1 rec] show ?thesis .
      qed
    qed
  qed
qed

lemma map_loop_inv:
  "len_le_cap h \<Longrightarrow> map_loop f sp ret i h = Ret (r, h') \<Longrightarrow> len_le_cap h'"
proof (induction f sp ret i h rule: map_loop.induct)
  case (1 f sp ret i h)
  from "1.prems"(2) obtain s where s: "deref h sp = Some s"
    by (cases "deref h sp") (simp_all add: map_loop.simps)
  show ?case
  proof (cases "i < len s")
    case False
    with "1.prems" s show ?thesis by (simp add: map_loop.simps)
  next
    case True
    from "1.prems"(2) s True obtain p where g: "SliceGet sp i h = Ret p"
      by (cases "SliceGet sp i h") (simp_all add: map_loop.simps)
    let ?h0 = "h\<lparr>bufs := snd (f p (bufs h))\<rparr>"
    have inv0: "len_le_cap ?h0" using "1.prems"(1) by (simp add: len_le_cap_def)
    from "1.prems"(2) s True g obtain x where
      app: "SliceAppend ret (fst (f p (bufs h))) ?h0 = Ret x"
      by (cases "SliceAppend ret (fst (f p (bufs h))) ?h0") (simp_all add: map_loop.simps)
    obtain q h1 where x: "(q, h1) = x" by (cases x) auto
    from inv0 app x have inv1: "len_le_cap h1" by (auto simp: SliceAppend_inv)
    show ?thesis
    proof (cases q)
      case None
      with "1.prems"(2) s True g app x have "h' = h1" by (auto simp: map_loop.simps)
      with inv1 show ?thesis by simp
    next
      case (Some b)
      with "1.prems"(2) s True g app x have c: "in_int (i + 1)"
        and rec: "map_loop f sp ret (i + 1) h1 = Ret (r, h')"
        by (auto simp: map_loop.simps [of f sp ret i] split: if_splits)
      from "1.IH" [OF s True g app x Some c inv1 rec] show ?thesis .
    qed
  qed
qed

lemma filter_loop_inv:
  "len_le_cap h \<Longrightarrow> filter_loop f sp ret i h = Ret (r, h') \<Longrightarrow> len_le_cap h'"
proof (induction f sp ret i h rule: filter_loop.induct)
  case (1 f sp ret i h)
  from "1.prems"(2) obtain s where s: "deref h sp = Some s"
    by (cases "deref h sp") (simp_all add: filter_loop.simps)
  show ?case
  proof (cases "i < len s")
    case False
    with "1.prems" s show ?thesis by (simp add: filter_loop.simps)
  next
    case True
    from "1.prems"(2) s True obtain p where g: "SliceGet sp i h = Ret p"
      by (cases "SliceGet sp i h") (simp_all add: filter_loop.simps)
    let ?h0 = "h\<lparr>bufs := snd (f p (bufs h))\<rparr>"
    have inv0: "len_le_cap ?h0" using "1.prems"(1) by (simp add: len_le_cap_def)
    show ?thesis
    proof (cases "fst (f p (bufs h)) \<noteq> 0")
      case False
      with "1.prems"(2) s True g have c: "in_int (i + 1)"
        and rec: "filter_loop f sp ret (i + 1) ?h0 = Ret (r, h')"
        by (auto simp: filter_loop.simps [of f sp ret i] split: if_splits)
      from "1.IH"(2) [OF s True g False c inv0 rec] show ?thesis .
    next
      case keep: True
      from "1.prems"(2) s True g keep obtain x where
        app: "SliceAppend ret p ?h0 = Ret x"
        by (cases "SliceAppend ret p ?h0") (simp_all add: filter_loop.simps)
      obtain q h1 where x: "(q, h1) = x" by (cases x) auto
      from inv0 app x have inv1: "len_le_cap h1" by (auto simp: SliceAppend_inv)
      show ?thesis
      proof (cases q)
        case None
        with "1.prems"(2) s True g keep app x have "DeleteSlice ret h1 = Ret h'"
          by (auto simp: filter_loop.simps split: res.splits)
        with inv1 show ?thesis by (rule DeleteSlice_inv)
      next
        case (Some b)
        with "1.prems"(2) s True g keep app x have c: "in_int (i + 1)"
          and rec: "filter_loop f sp ret (i + 1) h1 = Ret (r, h')"
          by (auto simp: filter_loop.simps [of f sp ret i] split: if_splits)
        from "1.IH"(1) [OF s True g keep app x Some c inv1 rec] show ?thesis .
      qed
    qed
  qed
qed


lemma reduce_loop_inv:
  "len_le_cap h \<Longrightarrow> reduce_loop f sp ret i h = Ret (q, h') \<Longrightarrow> len_le_cap h'"
proof (induction f sp ret i h rule: reduce_loop.induct)
  case (1 f sp ret i h)
  from "1.prems"(2) obtain s where s: "deref h sp = Some s"
    by (cases "deref h sp") (simp_all add: reduce_loop.simps)
  show ?case
  proof (cases "i < len s")
    case False
    with "1.prems" s show ?thesis by (simp add: reduce_loop.simps)
  next
    case True
    from "1.prems"(2) s True obtain d where g: "SliceGet sp i h = Ret d"
      by (cases "SliceGet sp i h") (simp_all add: reduce_loop.simps)
    let ?h0 = "h\<lparr>bufs := snd (f ret d (bufs h))\<rparr>"
    have inv0: "len_le_cap ?h0" using "1.prems"(1) by (simp add: len_le_cap_def)
    from "1.prems"(2) s True g have c: "in_int (i + 1)"
      and rec: "reduce_loop f sp (fst (f ret d (bufs h))) (i + 1) ?h0 = Ret (q, h')"
      by (auto simp: reduce_loop.simps [of f sp ret i] split: if_splits)
    from "1.IH" [OF s True g c inv0 rec] show ?thesis .
  qed
qed

lemma each_loop_inv:
  "len_le_cap h \<Longrightarrow> each_loop f sp i h = Ret h' \<Longrightarrow> len_le_cap h'"
proof (induction f sp i h rule: each_loop.induct)
  case (1 f sp i h)
  from "1.prems"(2) obtain s where s: "deref h sp = Some s"
    by (cases "deref h sp") (simp_all add: each_loop.simps)
  show ?case
  proof (cases "i < len s")
    case False
    with "1.prems" s show ?thesis by (simp add: each_loop.simps)
  next
    case True
    from "1.prems"(2) s True obtain d where g: "SliceGet sp i h = Ret d"
      by (cases "SliceGet sp i h") (simp_all add: each_loop.simps)
    let ?h0 = "h\<lparr>bufs := f d (bufs h)\<rparr>"
    have inv0: "len_le_cap ?h0" using "1.prems"(1) by (simp add: len_le_cap_def)
    from "1.prems"(2) s True g have c: "in_int (i + 1)"
      and rec: "each_loop f sp (i + 1) ?h0 = Ret h'"
      by (auto simp: each_loop.simps [of f sp i] split: if_splits)
    from "1.IH" [OF s True g c inv0 rec] show ?thesis .
  qed
qed

lemma array_loop_inv:
  "len_le_cap h \<Longrightarrow> array_loop sp a cnt i h = Ret (r, h') \<Longrightarrow> len_le_cap h'"
proof (induction sp a cnt i h rule: array_loop.induct)
  case (1 sp a cnt i h)
  show ?case
  proof (cases "u32 i < cnt")
    case False
    with "1.prems" show ?thesis by (simp add: array_loop.simps)
  next
    case True
    from "1.prems"(2) True obtain s where s: "deref h sp = Some s"
      by (cases "deref h sp") (simp_all add: array_loop.simps)
    from "1.prems"(2) True s obtain pa where a: "a = Some pa"
      by (cases a) (simp_all add: array_loop.simps)
    obtain b off where pa: "(b, off) = pa" by (cases pa) auto
    from "1.prems"(2) True s a pa obtain x where
      app: "SliceAppend sp (Some (b, off + u32 (int (elSize s) * i))) h = Ret x"
      by (cases "SliceAppend sp (Some (b, off + u32 (int (elSize s) * i))) h")
         (auto simp: array_loop.simps)
    obtain q h1 where x: "(q, h1) = x" by (cases x) auto
    from "1.prems"(1) app x have inv1: "len_le_cap h1" by (auto simp: SliceAppend_inv)
    show ?thesis
    proof (cases q)
      case None
      with "1.prems"(2) True s a pa app x have "h' = h1" by (auto simp: array_loop.simps)
      with inv1 show ?thesis by simp
    next
      case (Some c)
      with "1.prems"(2) True s a pa app x have ii: "in_int (i + 1)"
        and rec: "array_loop sp a cnt (i + 1) h1 = Ret (r, h')"
        by (auto simp: array_loop.simps [of sp _ cnt i] split: if_splits)
      from "1.IH" [OF True s a pa app x Some ii inv1 rec] show ?thesis .
    qed
  qed
qed

lemma extend_loop_inv:
  "len_le_cap h \<Longrightarrow> extend_loop s1 s2 i h = Ret (r, h') \<Longrightarrow> len_le_cap h'"
proof (induction s1 s2 i h rule: extend_loop.induct)
  case (1 s1 s2 i h)
  from "1.prems"(2) obtain s where s: "deref h s2 = Some s"
    by (cases "deref h s2") (simp_all add: extend_loop.simps)
  show ?case
  proof (cases "i < len s")
    case False
    with "1.prems" s show ?thesis by (simp add: extend_loop.simps)
  next
    case True
    from "1.prems"(2) s True obtain d where g: "SliceGet s2 i h = Ret d"
      by (cases "SliceGet s2 i h") (simp_all add: extend_loop.simps)
    from "1.prems"(2) s True g obtain x where app: "SliceAppend s1 d h = Ret x"
      by (cases "SliceAppend s1 d h") (simp_all add: extend_loop.simps)
    obtain q h1 where x: "(q, h1) = x" by (cases x) auto
    from "1.prems"(1) app x have inv1: "len_le_cap h1" by (auto simp: SliceAppend_inv)
    show ?thesis
    proof (cases q)
      case None
      with "1.prems"(2) s True g app x have "h' = h1" by (auto simp: extend_loop.simps)
      with inv1 show ?thesis by simp
    next
      case (Some c)
      with "1.prems"(2) s True g app x have ii: "in_int (i + 1)"
        and rec: "extend_loop s1 s2 (i + 1) h1 = Ret (r, h')"
        by (auto simp: extend_loop.simps [of s1 s2 i] split: if_splits)
      from "1.IH" [OF s True g app x Some ii inv1 rec] show ?thesis .
    qed
  qed
qed

lemma SliceEmpty_inv:
  assumes "len_le_cap h" and "SliceEmpty sp h = Ret (r, h')"
  shows "len_le_cap h'"
proof -
  from assms(2) obtain s where s: "deref h sp = Some s"
    by (cases "deref h sp") (simp_all add: SliceEmpty_def)
  from assms(2) s have
    "slices h' = slices h \<or>
     (\<exists>b. slices h' = (slices h)[the sp := Some (s\<lparr>head := b, len := 0, cap := 0\<rparr>)])"
    by (auto simp: SliceEmpty_def free_buf_def malloc_def tick_def
             split: option.splits if_splits)
  then show ?thesis
  proof (elim disjE exE)
    assume "slices h' = slices h"
    with assms(1) show ?thesis by (simp add: len_le_cap_def)
  next
    fix b
    assume h': "slices h' = (slices h)[the sp := Some (s\<lparr>head := b, len := 0, cap := 0\<rparr>)]"
    have "case Some (s\<lparr>head := b, len := 0, cap := 0\<rparr>) of None \<Rightarrow> True
          | Some s \<Rightarrow> 0 \<le> len s \<and> len s \<le> cap s" by simp
    then show ?thesis by (rule len_le_cap_update [OF assms(1) h'])
  qed
qed

lemma SliceSlice_inv:
  assumes "len_le_cap h" and "SliceSlice sp i1 i2 step h = Ret (r, h')"
  shows "len_le_cap h'"
proof -
  from assms(2) obtain s where s: "deref h sp = Some s"
    by (cases "deref h sp") (simp_all add: SliceSlice_def)
  define j1 where "j1 = (if i1 < 0 then len s + i1 else i1)"
  define j2 where "j2 = (if i2 < 0 then len s + i2 + 1 else i2)"
  obtain q h1 where n: "NewSlice (elSize s) (j2 - j1) h = (q, h1)"
    by (cases "NewSlice (elSize s) (j2 - j1) h")
  from assms(1) n have inv1: "len_le_cap h1" by (rule NewSlice_inv)
  from assms(2) s n have
    "h' = h \<or> h' = h1 \<or> copy_up sp q j1 j2 step h1 = Ret (r, h')
       \<or> copy_down sp q (j2 - 1) j1 step h1 = Ret (r, h')"
    unfolding SliceSlice_def j1_def j2_def Let_def
    by (auto split: if_splits option.splits)
  with assms(1) inv1 show ?thesis
    by (auto dest: copy_up_inv [OF inv1] copy_down_inv [OF inv1])
qed

lemma SliceMap_inv:
  assumes "len_le_cap h" and "SliceMap sp e f h = Ret (r, h')"
  shows "len_le_cap h'"
proof -
  from assms(2) obtain s where s: "deref h sp = Some s"
    by (cases "deref h sp") (simp_all add: SliceMap_def)
  obtain q h1 where n: "NewSlice e (len s) h = (q, h1)"
    by (cases "NewSlice e (len s) h")
  from assms(1) n have inv1: "len_le_cap h1" by (rule NewSlice_inv)
  from assms(2) s n have "map_loop f sp q 0 h1 = Ret (r, h')" by (simp add: SliceMap_def)
  with inv1 show ?thesis by (rule map_loop_inv)
qed

lemma SliceFilter_inv:
  assumes "len_le_cap h" and "SliceFilter sp f h = Ret (r, h')"
  shows "len_le_cap h'"
proof -
  from assms(2) obtain s where s: "deref h sp = Some s"
    by (cases "deref h sp") (simp_all add: SliceFilter_def)
  obtain q h1 where n: "NewSlice (elSize s) 0 h = (q, h1)"
    by (cases "NewSlice (elSize s) 0 h")
  from assms(1) n have inv1: "len_le_cap h1" by (rule NewSlice_inv)
  from assms(2) s n have "filter_loop f sp q 0 h1 = Ret (r, h')" by (simp add: SliceFilter_def)
  with inv1 show ?thesis by (rule filter_loop_inv)
qed

lemma SliceReduce_inv:
  assumes "len_le_cap h" and "SliceReduce sp f h = Ret (q, h')"
  shows "len_le_cap h'"
proof -
  from assms(2) obtain p where "reduce_loop f sp p 1 h = Ret (q, h')"
    by (cases "SliceGet sp 0 h") (simp_all add: SliceReduce_def)
  with assms(1) show ?thesis by (rule reduce_loop_inv)
qed

text \<open>
  C9. In every state reachable by the operations of the library (create, delete,
  sub-range, map, filter, reduce, for-each, append, append-array, extend, clear, with the
  caller free to change its own blocks in between), every live slice has
  \<open>0 \<le> len \<le> cap\<close>.
\<close>

theorem reachable_len_le_cap:
  assumes "reachable h"
  shows "len_le_cap h"
  using assms
proof (induction rule: reachable.induct)
  case (r_init h)
  then show ?case by (simp add: len_le_cap_def)
next
  case (r_caller h m av)
  then show ?case by (simp add: len_le_cap_def)
next
  case (r_new h e c r h')
  then show ?case by (simp add: NewSlice_inv)
next
  case (r_delete h sp h')
  then show ?case by (simp add: DeleteSlice_inv)
next
  case (r_slice h sp i1 i2 step r h')
  then show ?case by (simp add: SliceSlice_inv)
next
  case (r_map h sp e fm r h')
  then show ?case by (simp add: SliceMap_inv)
next
  case (r_filter h sp ff r h')
  then show ?case by (simp add: SliceFilter_inv)
next
  case (r_reduce h sp fr q h')
  then show ?case by (simp add: SliceReduce_inv)
next
  case (r_each h sp fe h')
  then show ?case by (simp add: SliceForEach_def each_loop_inv)
next
  case (r_append h sp dat r h')
  then show ?case by (simp add: SliceAppend_inv)
next
  case (r_array h sp dat cnt r h')
  then show ?case by (simp add: SliceAppendArray_def array_loop_inv)
next
  case (r_extend h sp sp2 r h')
  then show ?case by (simp add: SliceExtend_def extend_loop_inv)
next
  case (r_empty h sp r h')
  then show ?case by (simp add: SliceEmpty_inv)
qed


theorem reachable_len_le_cap_witness:
  "reachable ex_one \<and> len_le_cap ex_one \<and>
   NewSlice 4 0 ex_start = (Some 0, ex_start\<lparr>slices := [Some \<lparr>head = 1, len = 0, cap = 0, elSize = 4\<rparr>],
                                            bufs := [Some [7,0,0,0], Some []]\<rparr>) \<and>
   SliceAppend (Some 0) (Some (0, 0))
     (ex_start\<lparr>slices := [Some \<lparr>head = 1, len = 0, cap = 0, elSize = 4\<rparr>],
               bufs := [Some [7,0,0,0], Some []]\<rparr>) = Ret (Some 0, ex_one)"
proof -
  let ?h1 = "ex_start\<lparr>slices := [Some \<lparr>head = 1, len = 0, cap = 0, elSize = 4\<rparr>],
                       bufs := [Some [7,0,0,0], Some []]\<rparr>"
  have n: "NewSlice 4 0 ex_start = (Some 0, ?h1)"
    by (simp add: NewSlice_def malloc_Slice_def calloc_def malloc_def alloc_ok_def tick_def
          u32_def ex_defs)
  have a: "SliceAppend (Some 0) (Some (0, 0)) ?h1 = Ret (Some 0, ex_one)"
    by (simp add: ex_defs SliceAppend_def grow_def realloc_def realloc_size_def alloc_ok_def
          tick_def memcpy_def overlap_def load_def store_def lookup_def u32_def in_int_def
          INT_MAX_def INT_MIN_def Let_def)
  have "slices ex_start = []" by (simp add: ex_defs)
  then have "reachable ex_start" by (rule r_init)
  then have "reachable ?h1" using n by (rule r_new)
  then have r: "reachable ex_one" using a by (rule r_append)
  from reachable_len_le_cap [OF r] r n a show ?thesis by simp
qed

subsection \<open>The copy loops of the sub-range extraction\<close>

lemma validD:
  assumes "valid h a" and "lookup (slices h) a = Some s"
  shows "0 \<le> len s" and "len s \<le> INT_MAX" and "len s * int (elSize s) < 4294967296"
    and "\<exists>bs. lookup (bufs h) (head s) = Some bs \<and> nat (len s) * elSize s \<le> length bs"
  using assms by (auto simp: valid_def split: option.splits)

lemma validI:
  assumes "lookup (slices h) a = Some s" and "0 \<le> len s" and "len s \<le> INT_MAX"
    and "len s * int (elSize s) < 4294967296"
    and "lookup (bufs h) (head s) = Some bs" and "nat (len s) * elSize s \<le> length bs"
  shows "valid h a"
  using assms by (simp add: valid_def)

lemma elem_at_same:
  assumes "lookup (slices h1) a = lookup (slices h) a"
    and "\<And>s. lookup (slices h) a = Some s \<Longrightarrow> lookup (bufs h1) (head s) = lookup (bufs h) (head s)"
  shows "elem_at h1 a j = elem_at h a j"
  using assms
  by (auto simp: elem_at_def SliceGet_def load_def split: option.splits res.splits)

lemma SliceAppend_progress:
  assumes sr: "lookup (slices h) r = Some sr" and lt: "len sr < cap sr" and l0: "0 \<le> len sr"
    and mx: "len sr + 1 \<le> INT_MAX"
    and w: "len sr * int (elSize sr) < 4294967296"
    and br: "lookup (bufs h) (head sr) = Some br"
    and fit: "nat (len sr) * elSize sr + elSize sr \<le> length br"
    and ld: "load (bufs h) p (elSize sr) = Some v"
    and ne: "fst p \<noteq> head sr"
  shows "SliceAppend (Some r) (Some p) h =
     Ret (Some r, h\<lparr>slices := (slices h)[r := Some (sr\<lparr>len := len sr + 1\<rparr>)],
                    bufs := (bufs h)[head sr := Some (take (nat (len sr) * elSize sr) br @ v @
                                drop (nat (len sr) * elSize sr + elSize sr) br)]\<rparr>)"
proof -
  have "0 \<le> len sr * int (elSize sr)" using l0 by simp
  with w have "u32 (len sr * int (elSize sr)) = nat (len sr * int (elSize sr))"
    by (simp add: u32_id)
  also have "\<dots> = nat (len sr) * elSize sr" using l0 by (simp add: nat_mult_distrib)
  finally have off: "u32 (len sr * int (elSize sr)) = nat (len sr) * elSize sr" .
  have lv: "length v = elSize sr" using ld by (rule load_length)
  have ii: "in_int (len sr + 1)" using l0 mx by (simp add: in_int_def INT_MIN_def)
  have g: "grow r sr h = Ret (Some sr, h)" using lt by (simp add: grow_def)
  have m: "memcpy (Some (head sr, nat (len sr) * elSize sr)) (Some p) (elSize sr) (bufs h) =
     Ret ((bufs h)[head sr := Some (take (nat (len sr) * elSize sr) br @ v @
                                drop (nat (len sr) * elSize sr + elSize sr) br)])"
    using ld br fit ne lv by (simp add: memcpy_def overlap_def store_def)
  show ?thesis using sr g m ii by (simp add: SliceAppend_def off)
qed


lemma copyingD:
  assumes "copying h a r" and "lookup (slices h) a = Some s" and "lookup (slices h) r = Some sr"
  shows "valid h a" and "valid h r" and "a \<noteq> r" and "head s \<noteq> head sr"
    and "elSize sr = elSize s" and "cap sr \<le> len s"
    and "\<exists>br. lookup (bufs h) (head sr) = Some br \<and> nat (cap sr) * elSize s \<le> length br"
  using assms by (auto simp: copying_def split: option.splits)

lemma copy_elem_step:
  assumes c: "copying h a r" and s: "lookup (slices h) a = Some s"
    and sr: "lookup (slices h) r = Some sr"
    and i: "0 \<le> i" "i < len s" and room: "len sr < cap sr"
  shows "\<exists>h1. copy_elem (Some a) (Some r) i h = Ret (Some r, h1) \<and> copying h1 a r \<and>
           lookup (slices h1) a = Some s \<and>
           lookup (slices h1) r = Some (sr\<lparr>len := len sr + 1\<rparr>) \<and>
           elem_at h a i \<noteq> None \<and> elem_at h1 r (len sr) = elem_at h a i \<and>
           (\<forall>j. 0 \<le> j \<and> j < len sr \<longrightarrow> elem_at h1 r j = elem_at h r j) \<and>
           (\<forall>j. elem_at h1 a j = elem_at h a j)"
proof -
  let ?e = "elSize s"
  note cd = copyingD [OF c s sr]
  note va = validD [OF cd(1) s]
  note vr = validD [OF cd(2) sr]
  from va(4) obtain bs where bs: "lookup (bufs h) (head s) = Some bs"
    and bl: "nat (len s) * ?e \<le> length bs" by blast
  from cd(7) obtain br where br: "lookup (bufs h) (head sr) = Some br"
    and cl: "nat (cap sr) * ?e \<le> length br" by blast
  note ib = index_bounds [OF i va(3) bl]
  let ?v = "take ?e (drop (nat i * ?e) bs)"
  have ea: "elem_at h a i = Some ?v"
    using s bs i ib by (intro elem_at_buf) simp_all
  have "0 \<le> i * int ?e" using i(1) by simp
  with ib(3) have "u32 (i * int ?e) = nat (i * int ?e)" by (simp add: u32_id)
  also have "\<dots> = nat i * ?e" using i(1) by (simp add: nat_mult_distrib)
  finally have off: "u32 (i * int ?e) = nat i * ?e" .
  have g: "SliceGet (Some a) i h = Ret (Some (head s, nat i * ?e))"
    using s i by (simp add: SliceGet_def off)
  have ld: "load (bufs h) (head s, nat i * ?e) (elSize sr) = Some ?v"
    using bs ib(2) cd(5) by (simp add: load_def)
  have rl: "len sr + 1 \<le> len s" using room cd(6) by simp
  have mx: "len sr + 1 \<le> INT_MAX" using rl va(2) by simp
  have w1: "(len sr + 1) * int ?e \<le> len s * int ?e"
    using rl by (intro mult_right_mono) simp_all
  have w: "len sr * int (elSize sr) < 4294967296"
    using w1 va(3) cd(5) by (simp add: algebra_simps)
  have w2: "(len sr + 1) * int ?e < 4294967296" using w1 va(3) by simp
  have "Suc (nat (len sr)) \<le> nat (cap sr)" using room vr(1) by simp
  then have "Suc (nat (len sr)) * ?e \<le> nat (cap sr) * ?e" by (rule mult_le_mono1)
  with cl have fit: "nat (len sr) * elSize sr + elSize sr \<le> length br"
    using cd(5) by simp
  let ?br' = "take (nat (len sr) * elSize sr) br @ ?v @ drop (nat (len sr) * elSize sr + elSize sr) br"
  let ?sr' = "sr\<lparr>len := len sr + 1\<rparr>"
  let ?h1 = "h\<lparr>slices := (slices h)[r := Some ?sr'], bufs := (bufs h)[head sr := Some ?br']\<rparr>"
  have ne: "fst (head s, nat i * ?e) \<noteq> head sr" using cd(4) by simp
  have app: "SliceAppend (Some r) (Some (head s, nat i * ?e)) h = Ret (Some r, ?h1)"
    using sr room vr(1) mx w br fit ld ne by (rule SliceAppend_progress)
  have ce: "copy_elem (Some a) (Some r) i h = Ret (Some r, ?h1)"
    using g app by (simp add: copy_elem_def)
  have rlt: "r < length (slices h)" using sr by (rule lookup_Some_lt)
  have hl: "head sr < length (bufs h)" using br by (rule lookup_Some_lt)
  have s1: "lookup (slices ?h1) a = Some s" using s cd(3) by (simp add: lookup_update)
  have sr1: "lookup (slices ?h1) r = Some ?sr'" using rlt by (simp add: lookup_update)
  have bs1: "lookup (bufs ?h1) (head s) = Some bs" using bs cd(4) by (simp add: lookup_update)
  have br1: "lookup (bufs ?h1) (head sr) = Some ?br'" using hl by (simp add: lookup_update)
  have lbr: "length ?br' = length br" using fit cd(5) ib(2) by simp
  from SliceAppend_elems [OF cd(2) sr ld app]
  have new: "elem_at ?h1 r (len sr) = Some ?v"
    and old: "\<forall>j. 0 \<le> j \<and> j < len sr \<longrightarrow> elem_at ?h1 r j = elem_at h r j"
    using sr1 by auto
  have same: "elem_at ?h1 a j = elem_at h a j" for j
    using s s1 bs bs1 by (intro elem_at_same) simp_all
  have va1: "valid ?h1 a"
    using s1 va(1,2,3) bs1 bl by (rule validI)
  have "nat (len sr + 1) * ?e \<le> length br"
    using fit cd(5) vr(1) by (simp add: nat_add_distrib)
  then have vr1: "valid ?h1 r"
    using sr1 vr(1) mx w2 br1 lbr cd(5) by (intro validI [where s = ?sr' and bs = ?br']) simp_all
  have c1: "copying ?h1 a r"
    using va1 vr1 cd(3,4,5,6) s1 sr1 br1 lbr cl by (simp add: copying_def)
  show ?thesis
    using ce c1 s1 sr1 ea new old same by (intro exI [of _ ?h1]) simp
qed


lemma copy_down_run:
  assumes "copying h a r" and "lookup (slices h) a = Some s" and "lookup (slices h) r = Some sr"
    and "step < 0" and "in_int step" and "i < len s" and "0 \<le> j1"
    and "\<forall>t<m. j1 \<le> i + int t * step" and "i + int m * step < j1"
    and "len sr + int m \<le> cap sr"
  shows "\<exists>h' sr'. copy_down (Some a) (Some r) i j1 step h = Ret (Some r, h') \<and>
           copying h' a r \<and> lookup (slices h') a = Some s \<and>
           lookup (slices h') r = Some sr' \<and> len sr' = len sr + int m \<and>
           (\<forall>t<m. elem_at h a (i + int t * step) \<noteq> None \<and>
                  elem_at h' r (len sr + int t) = elem_at h a (i + int t * step)) \<and>
           (\<forall>j. 0 \<le> j \<and> j < len sr \<longrightarrow> elem_at h' r j = elem_at h r j) \<and>
           (\<forall>j. elem_at h' a j = elem_at h a j)"
  using assms
proof (induction m arbitrary: i h sr)
  case 0
  then have "i < j1" by simp
  then have "copy_down (Some a) (Some r) i j1 step h = Ret (Some r, h)"
    by (simp add: copy_down.simps)
  with 0 show ?case by auto
next
  case (Suc m)
  from Suc.prems(8) have ji: "j1 \<le> i" by force
  with Suc.prems(7) have i0: "0 \<le> i" by simp
  note va = validD [OF copyingD(1) [OF Suc.prems(1,2,3)] Suc.prems(2)]
  note vr = validD [OF copyingD(2) [OF Suc.prems(1,2,3)] Suc.prems(3)]
  have room: "len sr < cap sr" using Suc.prems(10) by simp
  from copy_elem_step [OF Suc.prems(1,2,3) i0 Suc.prems(6) room]
  obtain h1 where ce: "copy_elem (Some a) (Some r) i h = Ret (Some r, h1)"
    and c1: "copying h1 a r" and s1: "lookup (slices h1) a = Some s"
    and sr1: "lookup (slices h1) r = Some (sr\<lparr>len := len sr + 1\<rparr>)"
    and e0: "elem_at h a i \<noteq> None" and e1: "elem_at h1 r (len sr) = elem_at h a i"
    and old1: "\<forall>j. 0 \<le> j \<and> j < len sr \<longrightarrow> elem_at h1 r j = elem_at h r j"
    and same1: "\<forall>j. elem_at h1 a j = elem_at h a j"
    by blast
  have ii: "in_int (i + step)"
    using i0 Suc.prems(4,5,6) va(2) by (simp add: in_int_def)
  have st: "copy_down (Some a) (Some r) i j1 step h =
              copy_down (Some a) (Some r) (i + step) j1 step h1"
    using ji ce ii Suc.prems(4) by (subst copy_down.simps) simp
  have p8: "\<forall>t<m. j1 \<le> (i + step) + int t * step"
  proof (intro allI impI)
    fix t assume "t < m"
    then have "Suc t < Suc m" by simp
    with Suc.prems(8) have "j1 \<le> i + int (Suc t) * step" by blast
    then show "j1 \<le> (i + step) + int t * step" by (simp add: algebra_simps)
  qed
  have p9: "(i + step) + int m * step < j1"
    using Suc.prems(9) by (simp add: algebra_simps)
  have p6: "i + step < len s" using Suc.prems(4,6) by simp
  have p10: "len (sr\<lparr>len := len sr + 1\<rparr>) + int m \<le> cap (sr\<lparr>len := len sr + 1\<rparr>)"
    using Suc.prems(10) by simp
  from Suc.IH [OF c1 s1 sr1 Suc.prems(4,5) p6 Suc.prems(7) p8 p9 p10]
  obtain h' sr' where run: "copy_down (Some a) (Some r) (i + step) j1 step h1 = Ret (Some r, h')"
    and c': "copying h' a r" and s': "lookup (slices h') a = Some s"
    and sr': "lookup (slices h') r = Some sr'" and l': "len sr' = len sr + 1 + int m"
    and new': "\<forall>t<m. elem_at h1 a (i + step + int t * step) \<noteq> None \<and>
                 elem_at h' r (len sr + 1 + int t) = elem_at h1 a (i + step + int t * step)"
    and old': "\<forall>j. 0 \<le> j \<and> j < len sr + 1 \<longrightarrow> elem_at h' r j = elem_at h1 r j"
    and same': "\<forall>j. elem_at h' a j = elem_at h1 a j"
    by auto
  have new: "elem_at h a (i + int t * step) \<noteq> None \<and>
             elem_at h' r (len sr + int t) = elem_at h a (i + int t * step)"
    if t: "t < Suc m" for t
  proof (cases t)
    case 0
    with e0 e1 old' vr(1) show ?thesis by simp
  next
    case (Suc u)
    with t have "u < m" by simp
    with new' same1 have "elem_at h a (i + step + int u * step) \<noteq> None \<and>
      elem_at h' r (len sr + 1 + int u) = elem_at h a (i + step + int u * step)" by simp
    then show ?thesis using Suc by (simp add: algebra_simps)
  qed
  have old: "\<forall>j. 0 \<le> j \<and> j < len sr \<longrightarrow> elem_at h' r j = elem_at h r j"
    using old' old1 by simp
  have same: "\<forall>j. elem_at h' a j = elem_at h a j"
    using same' same1 by simp
  have l: "len sr' = len sr + int (Suc m)" using l' by simp
  show ?case
    using st run c' s' sr' l new old same by (intro exI [of _ h'] exI [of _ sr']) simp
qed


lemma copy_up_run:
  assumes "copying h a r" and "lookup (slices h) a = Some s" and "lookup (slices h) r = Some sr"
    and "0 < step" and "0 \<le> i" and "j2 \<le> len s"
    and "\<forall>t<m. i + int t * step < j2" and "j2 \<le> i + int m * step"
    and "i + int m * step \<le> INT_MAX"
    and "len sr + int m \<le> cap sr"
  shows "\<exists>h' sr'. copy_up (Some a) (Some r) i j2 step h = Ret (Some r, h') \<and>
           copying h' a r \<and> lookup (slices h') a = Some s \<and>
           lookup (slices h') r = Some sr' \<and> len sr' = len sr + int m \<and>
           (\<forall>t<m. elem_at h a (i + int t * step) \<noteq> None \<and>
                  elem_at h' r (len sr + int t) = elem_at h a (i + int t * step)) \<and>
           (\<forall>j. 0 \<le> j \<and> j < len sr \<longrightarrow> elem_at h' r j = elem_at h r j) \<and>
           (\<forall>j. elem_at h' a j = elem_at h a j)"
  using assms
proof (induction m arbitrary: i h sr)
  case 0
  then have "\<not> i < j2" by simp
  then have "copy_up (Some a) (Some r) i j2 step h = Ret (Some r, h)"
    by (simp add: copy_up.simps)
  with 0 show ?case by auto
next
  case (Suc m)
  from Suc.prems(7) have ij: "i < j2" by force
  with Suc.prems(6) have il: "i < len s" by simp
  note vr = validD [OF copyingD(2) [OF Suc.prems(1,2,3)] Suc.prems(3)]
  have room: "len sr < cap sr" using Suc.prems(10) by simp
  from copy_elem_step [OF Suc.prems(1,2,3) Suc.prems(5) il room]
  obtain h1 where ce: "copy_elem (Some a) (Some r) i h = Ret (Some r, h1)"
    and c1: "copying h1 a r" and s1: "lookup (slices h1) a = Some s"
    and sr1: "lookup (slices h1) r = Some (sr\<lparr>len := len sr + 1\<rparr>)"
    and e0: "elem_at h a i \<noteq> None" and e1: "elem_at h1 r (len sr) = elem_at h a i"
    and old1: "\<forall>j. 0 \<le> j \<and> j < len sr \<longrightarrow> elem_at h1 r j = elem_at h r j"
    and same1: "\<forall>j. elem_at h1 a j = elem_at h a j"
    by blast
  have "0 \<le> int m * step" using Suc.prems(4) by simp
  then have "i + step \<le> i + int (Suc m) * step" by (simp add: algebra_simps)
  with Suc.prems(9) have "i + step \<le> INT_MAX" by simp
  then have ii: "in_int (i + step)"
    using Suc.prems(4,5) by (simp add: in_int_def INT_MIN_def)
  have st: "copy_up (Some a) (Some r) i j2 step h =
              copy_up (Some a) (Some r) (i + step) j2 step h1"
    using ij ce ii Suc.prems(4) by (subst copy_up.simps) simp
  have p7: "\<forall>t<m. (i + step) + int t * step < j2"
  proof (intro allI impI)
    fix t assume "t < m"
    then have "Suc t < Suc m" by simp
    with Suc.prems(7) have "i + int (Suc t) * step < j2" by blast
    then show "(i + step) + int t * step < j2" by (simp add: algebra_simps)
  qed
  have p8: "j2 \<le> (i + step) + int m * step"
    using Suc.prems(8) by (simp add: algebra_simps)
  have p9: "(i + step) + int m * step \<le> INT_MAX"
    using Suc.prems(9) by (simp add: algebra_simps)
  have p5: "0 \<le> i + step" using Suc.prems(4,5) by simp
  have p10: "len (sr\<lparr>len := len sr + 1\<rparr>) + int m \<le> cap (sr\<lparr>len := len sr + 1\<rparr>)"
    using Suc.prems(10) by simp
  from Suc.IH [OF c1 s1 sr1 Suc.prems(4) p5 Suc.prems(6) p7 p8 p9 p10]
  obtain h' sr' where run: "copy_up (Some a) (Some r) (i + step) j2 step h1 = Ret (Some r, h')"
    and c': "copying h' a r" and s': "lookup (slices h') a = Some s"
    and sr': "lookup (slices h') r = Some sr'" and l': "len sr' = len sr + 1 + int m"
    and new': "\<forall>t<m. elem_at h1 a (i + step + int t * step) \<noteq> None \<and>
                 elem_at h' r (len sr + 1 + int t) = elem_at h1 a (i + step + int t * step)"
    and old': "\<forall>j. 0 \<le> j \<and> j < len sr + 1 \<longrightarrow> elem_at h' r j = elem_at h1 r j"
    and same': "\<forall>j. elem_at h' a j = elem_at h1 a j"
    by auto
  have new: "elem_at h a (i + int t * step) \<noteq> None \<and>
             elem_at h' r (len sr + int t) = elem_at h a (i + int t * step)"
    if t: "t < Suc m" for t
  proof (cases t)
    case 0
    with e0 e1 old' vr(1) show ?thesis by simp
  next
    case (Suc u)
    with t have "u < m" by simp
    with new' same1 have "elem_at h a (i + step + int u * step) \<noteq> None \<and>
      elem_at h' r (len sr + 1 + int u) = elem_at h a (i + step + int u * step)" by simp
    then show ?thesis using Suc by (simp add: algebra_simps)
  qed
  have old: "\<forall>j. 0 \<le> j \<and> j < len sr \<longrightarrow> elem_at h' r j = elem_at h r j"
    using old' old1 by simp
  have same: "\<forall>j. elem_at h' a j = elem_at h a j"
    using same' same1 by simp
  have l: "len sr' = len sr + int (Suc m)" using l' by simp
  show ?case
    using st run c' s' sr' l new old same by (intro exI [of _ h'] exI [of _ sr']) simp
qed

lemma NewSlice_ok:
  assumes "alloc_ok h" and "alloc_ok (tick h)" and "0 \<le> c"
  shows "NewSlice e c h =
     (Some (length (slices h)),
      h\<lparr>slices := slices h @ [Some \<lparr>head = length (bufs h), len = 0, cap = c, elSize = e\<rparr>],
        bufs := bufs h @ [Some (replicate (u32 c * e) 0)],
        avail := tl (tl (avail h))\<rparr>)"
  using assms
  by (simp add: NewSlice_def malloc_Slice_def calloc_def malloc_def tick_def alloc_ok_def)

lemma NewSlice_fails:
  assumes "\<not> (alloc_ok h \<and> alloc_ok (tick h))"
  shows "fst (NewSlice e c h) = None"
  using assms
  by (auto simp: NewSlice_def malloc_Slice_def calloc_def malloc_def tick_def alloc_ok_def
           split: prod.splits option.splits if_splits)

subsection \<open>Sub-range extraction\<close>

lemma u32_small: "0 \<le> c \<Longrightarrow> c \<le> INT_MAX \<Longrightarrow> u32 c = nat c"
  by (simp add: u32_def INT_MAX_def)

lemma copying_after_new:
  assumes v: "valid h a" and s: "lookup (slices h) a = Some s"
    and c: "0 \<le> c" "c \<le> len s"
    and ok: "alloc_ok h" "alloc_ok (tick h)"
  shows "\<exists>h1. NewSlice (elSize s) c h = (Some (length (slices h)), h1) \<and>
           copying h1 a (length (slices h)) \<and> lookup (slices h1) a = Some s \<and>
           lookup (slices h1) (length (slices h)) =
             Some \<lparr>head = length (bufs h), len = 0, cap = c, elSize = elSize s\<rparr> \<and>
           (\<forall>j. elem_at h1 a j = elem_at h a j)"
proof -
  note va = validD [OF v s]
  from va(4) obtain bs where bs: "lookup (bufs h) (head s) = Some bs"
    and bl: "nat (len s) * elSize s \<le> length bs" by blast
  let ?r = "length (slices h)"
  let ?sr = "\<lparr>head = length (bufs h), len = 0, cap = c, elSize = elSize s\<rparr>"
  let ?h1 = "h\<lparr>slices := slices h @ [Some ?sr],
               bufs := bufs h @ [Some (replicate (nat c * elSize s) 0)],
               avail := tl (tl (avail h))\<rparr>"
  have u: "u32 c = nat c" using c va(2) by (intro u32_small) simp_all
  have n: "NewSlice (elSize s) c h = (Some ?r, ?h1)"
    using NewSlice_ok [OF ok c(1), of "elSize s"] by (simp add: u)
  have al: "a < ?r" using s by (rule lookup_Some_lt)
  have hl: "head s < length (bufs h)" using bs by (rule lookup_Some_lt)
  have s1: "lookup (slices ?h1) a = Some s" using s al by (simp add: lookup_snoc)
  have sr1: "lookup (slices ?h1) ?r = Some ?sr" by (simp add: lookup_snoc)
  have bs1: "lookup (bufs ?h1) (head s) = Some bs" using bs hl by (simp add: lookup_snoc)
  have br1: "lookup (bufs ?h1) (length (bufs h)) = Some (replicate (nat c * elSize s) 0)"
    by (simp add: lookup_snoc)
  have va1: "valid ?h1 a" using s1 va(1,2,3) bs1 bl by (rule validI)
  have vr1: "valid ?h1 ?r"
    using sr1 br1 by (intro validI [where s = ?sr]) (simp_all add: INT_MAX_def)
  have c1: "copying ?h1 a ?r"
    using va1 vr1 al hl s1 sr1 br1 c(2) by (simp add: copying_def)
  have same: "elem_at ?h1 a j = elem_at h a j" for j
    using s s1 bs bs1 by (intro elem_at_same) simp_all
  show ?thesis using n c1 s1 sr1 same by (intro exI [of _ ?h1]) simp
qed

lemma down_count:
  assumes "0 \<le> x" and "0 < d"
  shows "\<forall>t < nat (x div d + 1). int t * d \<le> x"
    and "x < int (nat (x div d + 1)) * d"
    and "int (nat (x div d + 1)) \<le> x + 1"
proof -
  have q0: "0 \<le> x div d" using assms by (simp add: pos_imp_zdiv_nonneg_iff)
  have e: "x = x div d * d + x mod d" by simp
  have "0 \<le> x mod d" and "x mod d < d" using assms(2) by simp_all
  with e have m: "x div d * d \<le> x" and r0: "x < x div d * d + d" by linarith+
  have r: "x < (x div d + 1) * d" using r0 by (simp add: algebra_simps)
  show "\<forall>t < nat (x div d + 1). int t * d \<le> x"
  proof (intro allI impI)
    fix t assume "t < nat (x div d + 1)"
    then have "int t \<le> x div d" using q0 by simp
    then have "int t * d \<le> x div d * d" using assms(2) by (intro mult_right_mono) simp_all
    with m show "int t * d \<le> x" by simp
  qed
  show "x < int (nat (x div d + 1)) * d" using r q0 by simp
  have "x div d * 1 \<le> x div d * d" using q0 assms(2) by (intro mult_left_mono) simp_all
  with m have "x div d \<le> x" by simp
  then show "int (nat (x div d + 1)) \<le> x + 1" using q0 by simp
qed


lemma SliceSlice_rejected:
  assumes "lookup (slices h) a = Some s" and "rejected s i1 i2 step"
  shows "SliceSlice (Some a) i1 i2 step h = Ret (None, h)"
  using assms
  by (auto simp: SliceSlice_def rejected_def norm_start_def norm_end_def Let_def
           split: if_splits)

lemma SliceSlice_accepted:
  assumes "lookup (slices h) a = Some s" and "\<not> rejected s i1 i2 step"
  shows "SliceSlice (Some a) i1 i2 step h =
     (case NewSlice (elSize s) (norm_end s i2 - norm_start s i1) h of
        (None, h1) \<Rightarrow> Ret (None, h1)
      | (Some r, h1) \<Rightarrow>
          if step > 0
          then copy_up (Some a) (Some r) (norm_start s i1) (norm_end s i2) step h1
          else copy_down (Some a) (Some r) (norm_end s i2 - 1) (norm_start s i1) step h1)"
proof -
  from assms(2) have 3: "\<not> (len s \<le> i1 \<or> i1 < - len s \<or> len s < i2 \<or> i2 < - len s \<or> step = 0)"
    and 4: "\<not> norm_end s i2 \<le> norm_start s i1"
    by (auto simp: rejected_def)
  have "SliceSlice (Some a) i1 i2 step h =
     (let j1 = norm_start s i1; j2 = norm_end s i2
      in if j1 \<ge> j2 then Ret (None, h)
         else (case NewSlice (elSize s) (j2 - j1) h of
                 (None, h1) \<Rightarrow> Ret (None, h1)
               | (Some r, h1) \<Rightarrow>
                   if step > 0 then copy_up (Some a) (Some r) j1 j2 step h1
                   else copy_down (Some a) (Some r) (j2 - 1) j1 step h1))"
    using assms(1) 3 by (simp add: SliceSlice_def norm_start_def norm_end_def)
  then show ?thesis using 4 by (simp add: Let_def)
qed

lemma accepted_bounds:
  assumes "0 \<le> len s" and "\<not> rejected s i1 i2 step"
  shows "0 \<le> norm_start s i1" and "norm_start s i1 < norm_end s i2"
    and "norm_end s i2 \<le> len s" and "step \<noteq> 0"
  using assms by (auto simp: rejected_def norm_start_def norm_end_def split: if_splits)

lemma SliceSlice_alloc_fails:
  assumes "lookup (slices h) a = Some s" and "\<not> rejected s i1 i2 step"
    and "\<not> (alloc_ok h \<and> alloc_ok (tick h))"
  shows "\<exists>h'. SliceSlice (Some a) i1 i2 step h = Ret (None, h')"
proof -
  obtain q h1 where n: "NewSlice (elSize s) (norm_end s i2 - norm_start s i1) h = (q, h1)"
    by (cases "NewSlice (elSize s) (norm_end s i2 - norm_start s i1) h")
  with NewSlice_fails [OF assms(3), of "elSize s" "norm_end s i2 - norm_start s i1"]
  have "q = None" by simp
  with n show ?thesis by (simp add: SliceSlice_accepted [OF assms(1,2)])
qed

lemma SliceSlice_down:
  assumes v: "valid h a" and s: "lookup (slices h) a = Some s"
    and acc: "\<not> rejected s i1 i2 step" and st: "step < 0" "in_int step"
    and ok: "alloc_ok h" "alloc_ok (tick h)"
  shows "\<exists>h' sr. SliceSlice (Some a) i1 i2 step h = Ret (Some (length (slices h)), h') \<and>
           copying h' a (length (slices h)) \<and> lookup (slices h') a = Some s \<and>
           lookup (slices h') (length (slices h)) = Some sr \<and>
           len sr = int (nat ((norm_end s i2 - 1 - norm_start s i1) div (- step) + 1)) \<and>
           (\<forall>t < nat ((norm_end s i2 - 1 - norm_start s i1) div (- step) + 1).
                elem_at h a (norm_end s i2 - 1 - int t * (- step)) \<noteq> None \<and>
                elem_at h' (length (slices h)) (int t) =
                  elem_at h a (norm_end s i2 - 1 - int t * (- step))) \<and>
           (\<forall>j. elem_at h' a j = elem_at h a j)"
proof -
  let ?j1 = "norm_start s i1" and ?j2 = "norm_end s i2"
  let ?r = "length (slices h)"
  let ?m = "nat ((?j2 - 1 - ?j1) div (- step) + 1)"
  note va = validD [OF v s]
  note b = accepted_bounds [OF va(1) acc]
  have x0: "0 \<le> ?j2 - 1 - ?j1" and d0: "0 < - step" using b(2) st(1) by simp_all
  note dc = down_count [OF x0 d0]
  have c: "0 \<le> ?j2 - ?j1" "?j2 - ?j1 \<le> len s" using b by simp_all
  from copying_after_new [OF v s c ok]
  obtain h1 where n: "NewSlice (elSize s) (?j2 - ?j1) h = (Some ?r, h1)"
    and c1: "copying h1 a ?r" and s1: "lookup (slices h1) a = Some s"
    and sr1: "lookup (slices h1) ?r =
                Some \<lparr>head = length (bufs h), len = 0, cap = ?j2 - ?j1, elSize = elSize s\<rparr>"
    and same1: "\<forall>j. elem_at h1 a j = elem_at h a j"
    by blast
  let ?sr = "\<lparr>head = length (bufs h), len = 0, cap = ?j2 - ?j1, elSize = elSize s\<rparr>"
  have eq: "SliceSlice (Some a) i1 i2 step h = copy_down (Some a) (Some ?r) (?j2 - 1) ?j1 step h1"
    using n st(1) by (simp add: SliceSlice_accepted [OF s acc])
  have p6: "?j2 - 1 < len s" using b(3) by simp
  have p8: "\<forall>t < ?m. ?j1 \<le> (?j2 - 1) + int t * step"
  proof (intro allI impI)
    fix t assume "t < ?m"
    with dc(1) have "int t * (- step) \<le> ?j2 - 1 - ?j1" by blast
    then show "?j1 \<le> (?j2 - 1) + int t * step" by simp
  qed
  have p9: "(?j2 - 1) + int ?m * step < ?j1"
  proof -
    from dc(2) have "?j2 - 1 - ?j1 < int ?m * (- step)" .
    then show ?thesis by simp
  qed
  have p10: "len ?sr + int ?m \<le> cap ?sr" using dc(3) by simp
  from copy_down_run [OF c1 s1 sr1 st p6 b(1) p8 p9 p10]
  obtain h' sr' where run: "copy_down (Some a) (Some ?r) (?j2 - 1) ?j1 step h1 = Ret (Some ?r, h')"
    and c': "copying h' a ?r" and s': "lookup (slices h') a = Some s"
    and sr': "lookup (slices h') ?r = Some sr'" and l': "len sr' = len ?sr + int ?m"
    and new': "\<forall>t < ?m. elem_at h1 a (?j2 - 1 + int t * step) \<noteq> None \<and>
                 elem_at h' ?r (len ?sr + int t) = elem_at h1 a (?j2 - 1 + int t * step)"
    and same': "\<forall>j. elem_at h' a j = elem_at h1 a j"
    by blast
  have new: "\<forall>t < ?m. elem_at h a (?j2 - 1 - int t * (- step)) \<noteq> None \<and>
                 elem_at h' ?r (int t) = elem_at h a (?j2 - 1 - int t * (- step))"
    using new' same1 by simp
  have same: "\<forall>j. elem_at h' a j = elem_at h a j" using same' same1 by simp
  have l: "len sr' = int ?m" using l' by simp
  show ?thesis
    using eq run c' s' sr' l new same by (intro exI [of _ h'] exI [of _ sr']) simp
qed


lemma SliceSlice_whole:
  assumes v: "valid h a" and s: "lookup (slices h) a = Some s" and ne: "0 < len s"
    and ok: "alloc_ok h" "alloc_ok (tick h)"
  shows "\<exists>h' sr. SliceSlice (Some a) 0 (len s) 1 h = Ret (Some (length (slices h)), h') \<and>
           copying h' a (length (slices h)) \<and> lookup (slices h') a = Some s \<and>
           lookup (slices h') (length (slices h)) = Some sr \<and> len sr = len s \<and>
           (\<forall>k. 0 \<le> k \<and> k < len s \<longrightarrow>
                elem_at h a k \<noteq> None \<and> elem_at h' (length (slices h)) k = elem_at h a k) \<and>
           (\<forall>j. elem_at h' a j = elem_at h a j)"
proof -
  let ?r = "length (slices h)"
  let ?m = "nat (len s)"
  note va = validD [OF v s]
  have acc: "\<not> rejected s 0 (len s) 1"
    using ne by (simp add: rejected_def norm_start_def norm_end_def)
  have j: "norm_start s 0 = 0" "norm_end s (len s) = len s"
    using ne by (simp_all add: norm_start_def norm_end_def)
  have c: "0 \<le> len s" "len s \<le> len s" using ne by simp_all
  from copying_after_new [OF v s c ok]
  obtain h1 where n: "NewSlice (elSize s) (len s) h = (Some ?r, h1)"
    and c1: "copying h1 a ?r" and s1: "lookup (slices h1) a = Some s"
    and sr1: "lookup (slices h1) ?r =
                Some \<lparr>head = length (bufs h), len = 0, cap = len s, elSize = elSize s\<rparr>"
    and same1: "\<forall>j. elem_at h1 a j = elem_at h a j"
    by blast
  let ?sr = "\<lparr>head = length (bufs h), len = 0, cap = len s, elSize = elSize s\<rparr>"
  have eq: "SliceSlice (Some a) 0 (len s) 1 h = copy_up (Some a) (Some ?r) 0 (len s) 1 h1"
    using n by (simp add: SliceSlice_accepted [OF s acc] j)
  have p7: "\<forall>t < ?m. 0 + int t * 1 < len s" by auto
  have p8: "len s \<le> 0 + int ?m * 1" by simp
  have p9: "0 + int ?m * 1 \<le> INT_MAX" using va(1,2) by simp
  have p10: "len ?sr + int ?m \<le> cap ?sr" using va(1) by simp
  from copy_up_run [OF c1 s1 sr1 _ _ _ p7 p8 p9 p10]
  obtain h' sr' where run: "copy_up (Some a) (Some ?r) 0 (len s) 1 h1 = Ret (Some ?r, h')"
    and c': "copying h' a ?r" and s': "lookup (slices h') a = Some s"
    and sr': "lookup (slices h') ?r = Some sr'" and l': "len sr' = len ?sr + int ?m"
    and new': "\<forall>t < ?m. elem_at h1 a (0 + int t * 1) \<noteq> None \<and>
                 elem_at h' ?r (len ?sr + int t) = elem_at h1 a (0 + int t * 1)"
    and same': "\<forall>j. elem_at h' a j = elem_at h1 a j"
    by auto
  have new: "elem_at h a k \<noteq> None \<and> elem_at h' ?r k = elem_at h a k"
    if k: "0 \<le> k" "k < len s" for k
  proof -
    from k have "nat k < ?m" by simp
    with new' have "elem_at h1 a (0 + int (nat k) * 1) \<noteq> None \<and>
       elem_at h' ?r (len ?sr + int (nat k)) = elem_at h1 a (0 + int (nat k) * 1)" by blast
    with k(1) same1 show ?thesis by simp
  qed
  have same: "\<forall>j. elem_at h' a j = elem_at h a j" using same' same1 by simp
  have l: "len sr' = len s" using l' va(1) by simp
  show ?thesis
    using eq run c' s' sr' l new same by (intro exI [of _ h'] exI [of _ sr']) simp
qed

lemma SliceAppend_frame:
  assumes c: "copying h a r" and s: "lookup (slices h) a = Some s"
    and ld: "load (bufs h) p (elSize s) = Some v"
    and app: "SliceAppend (Some r) (Some p) h = Ret (q, h')"
  shows "lookup (slices h') a = Some s \<and> (\<forall>j. elem_at h' a j = elem_at h a j)"
proof -
  from c obtain sr where sr: "lookup (slices h) r = Some sr"
    by (auto simp: copying_def split: option.splits)
  note cd = copyingD [OF c s sr]
  from validD(4) [OF cd(1) s] obtain bs where bs: "lookup (bufs h) (head s) = Some bs" by blast
  from cd(7) obtain br where br: "lookup (bufs h) (head sr) = Some br" by blast
  have hl: "head s < length (bufs h)" using bs by (rule lookup_Some_lt)
  have "lookup (slices h') a = Some s \<and> lookup (bufs h') (head s) = Some bs"
  proof (cases q)
    case None
    with SliceAppend_None [of "Some r" "Some p" h h'] app sr
    have "slices h' = slices h \<and> (bufs h' = bufs h \<or> bufs h' = (bufs h)[head sr := None])"
      by auto
    with s bs cd(4) show ?thesis by (auto simp: lookup_update)
  next
    case (Some b)
    from ld cd(5) have ld': "load (bufs h) p (elSize sr) = Some v" by simp
    from app Some have app': "SliceAppend (Some r) (Some p) h = Ret (Some b, h')" by simp
    from SliceAppend_post [OF cd(2) sr br app' ld'] s bs cd(3,4) hl
    show ?thesis by (auto simp: lookup_update)
  qed
  then show ?thesis
    using s bs by (auto intro!: elem_at_same)
qed

lemma SliceSlice_up:
  assumes v: "valid h a" and s: "lookup (slices h) a = Some s"
    and acc: "\<not> rejected s i1 i2 step" and st: "0 < step"
    and fits: "step_fits s i1 i2 step"
    and ok: "alloc_ok h" "alloc_ok (tick h)"
  shows "\<exists>h' sr. SliceSlice (Some a) i1 i2 step h = Ret (Some (length (slices h)), h') \<and>
           copying h' a (length (slices h)) \<and> lookup (slices h') a = Some s \<and>
           lookup (slices h') (length (slices h)) = Some sr \<and>
           len sr = int (nat ((norm_end s i2 - 1 - norm_start s i1) div step + 1)) \<and>
           (\<forall>t < nat ((norm_end s i2 - 1 - norm_start s i1) div step + 1).
                elem_at h a (norm_start s i1 + int t * step) \<noteq> None \<and>
                elem_at h' (length (slices h)) (int t) =
                  elem_at h a (norm_start s i1 + int t * step)) \<and>
           (\<forall>j. elem_at h' a j = elem_at h a j)"
proof -
  let ?j1 = "norm_start s i1" and ?j2 = "norm_end s i2"
  let ?r = "length (slices h)"
  let ?m = "nat ((?j2 - 1 - ?j1) div step + 1)"
  note va = validD [OF v s]
  note b = accepted_bounds [OF va(1) acc]
  have x0: "0 \<le> ?j2 - 1 - ?j1" using b(2) by simp
  note dc = down_count [OF x0 st]
  have c: "0 \<le> ?j2 - ?j1" "?j2 - ?j1 \<le> len s" using b by simp_all
  from copying_after_new [OF v s c ok]
  obtain h1 where n: "NewSlice (elSize s) (?j2 - ?j1) h = (Some ?r, h1)"
    and c1: "copying h1 a ?r" and s1: "lookup (slices h1) a = Some s"
    and sr1: "lookup (slices h1) ?r =
                Some \<lparr>head = length (bufs h), len = 0, cap = ?j2 - ?j1, elSize = elSize s\<rparr>"
    and same1: "\<forall>j. elem_at h1 a j = elem_at h a j"
    by blast
  let ?sr = "\<lparr>head = length (bufs h), len = 0, cap = ?j2 - ?j1, elSize = elSize s\<rparr>"
  have eq: "SliceSlice (Some a) i1 i2 step h = copy_up (Some a) (Some ?r) ?j1 ?j2 step h1"
    using n st by (simp add: SliceSlice_accepted [OF s acc])
  have p7: "\<forall>t < ?m. ?j1 + int t * step < ?j2"
  proof (intro allI impI)
    fix t assume "t < ?m"
    with dc(1) have "int t * step \<le> ?j2 - 1 - ?j1" by blast
    then show "?j1 + int t * step < ?j2" by simp
  qed
  have p8: "?j2 \<le> ?j1 + int ?m * step" using dc(2) by simp
  have p9: "?j1 + int ?m * step \<le> INT_MAX" using fits st by (simp add: step_fits_def)
  have p10: "len ?sr + int ?m \<le> cap ?sr" using dc(3) by simp
  from copy_up_run [OF c1 s1 sr1 st b(1) b(3) p7 p8 p9 p10]
  obtain h' sr' where run: "copy_up (Some a) (Some ?r) ?j1 ?j2 step h1 = Ret (Some ?r, h')"
    and c': "copying h' a ?r" and s': "lookup (slices h') a = Some s"
    and sr': "lookup (slices h') ?r = Some sr'" and l': "len sr' = len ?sr + int ?m"
    and new': "\<forall>t < ?m. elem_at h1 a (?j1 + int t * step) \<noteq> None \<and>
                 elem_at h' ?r (len ?sr + int t) = elem_at h1 a (?j1 + int t * step)"
    and same': "\<forall>j. elem_at h' a j = elem_at h1 a j"
    by blast
  have new: "\<forall>t < ?m. elem_at h a (?j1 + int t * step) \<noteq> None \<and>
                 elem_at h' ?r (int t) = elem_at h a (?j1 + int t * step)"
    using new' same1 by simp
  have same: "\<forall>j. elem_at h' a j = elem_at h a j" using same' same1 by simp
  have l: "len sr' = int ?m" using l' by simp
  show ?thesis
    using eq run c' s' sr' l new same by (intro exI [of _ h'] exI [of _ sr']) simp
qed

lemma SliceSlice_succeeds:
  assumes v: "valid h a" and s: "lookup (slices h) a = Some s"
    and acc: "\<not> rejected s i1 i2 step" and st: "in_int step"
    and fits: "step_fits s i1 i2 step"
    and ok: "alloc_ok h" "alloc_ok (tick h)"
  shows "\<exists>h'. SliceSlice (Some a) i1 i2 step h = Ret (Some (length (slices h)), h')"
proof (cases "0 < step")
  case True
  from SliceSlice_up [OF v s acc True fits ok] show ?thesis by blast
next
  case False
  with accepted_bounds(4) [OF validD(1) [OF v s] acc] have "step < 0" by simp
  from SliceSlice_down [OF v s acc this st ok] show ?thesis by blast
qed

subsection \<open>When the sub-range extraction fails\<close>

text \<open>
  C4, as stated, fails where the result cannot be allocated: on the slice 1, 2, 3 the
  request \<open>(0, 3, 1)\<close> passes the validation, yet \<^verbatim>\<open>SliceSlice\<close> returns \<^verbatim>\<open>NULL\<close> when
  \<^verbatim>\<open>malloc\<close> refuses the struct of the result.
\<close>

theorem SliceSlice_alloc_counterexample:
  "valid (ex_heap\<lparr>avail := [False]\<rparr>) 0 \<and>
   lookup (slices (ex_heap\<lparr>avail := [False]\<rparr>)) 0 = Some ex_slice \<and>
   SliceSlice (Some 0) 0 3 1 (ex_heap\<lparr>avail := [False]\<rparr>) = Ret (None, ex_heap) \<and>
   \<not> rejected ex_slice 0 3 1"
  by (simp add: ex_defs valid_def lookup_def INT_MAX_def SliceSlice_def NewSlice_def
        malloc_Slice_def alloc_ok_def tick_def rejected_def norm_start_def norm_end_def)

text \<open>
  C4, amended. For a valid slice and a step of type \<^verbatim>\<open>int\<close>: a rejected request
  (\<open>step = 0\<close>, or \<open>start\<close> outside \<open>[- len, len)\<close>, or \<open>end\<close> outside \<open>[- len, len]\<close>,
  or normalised \<open>start \<ge> end\<close>) returns \<^verbatim>\<open>NULL\<close> and leaves the heap as it was; an
  accepted request returns \<^verbatim>\<open>NULL\<close> when the allocation of the result (its struct or its
  buffer) fails; an accepted request whose allocations succeed returns the new slice,
  provided the loop index stays an \<^verbatim>\<open>int\<close> (\<open>step_fits\<close>: always for a negative step;
  for a positive one, \<open>start + n * step \<le> INT_MAX\<close> with \<open>n\<close> the number of elements
  copied). So under \<open>step_fits\<close> the call returns \<^verbatim>\<open>NULL\<close> exactly when the request is
  rejected or an allocation fails. Equal normalised bounds are rejected.
\<close>

theorem SliceSlice_fails_iff:
  assumes "valid h a" and "lookup (slices h) a = Some s" and "in_int step"
  shows "(rejected s i1 i2 step \<longrightarrow> SliceSlice (Some a) i1 i2 step h = Ret (None, h))
       \<and> (\<not> rejected s i1 i2 step \<and> \<not> (alloc_ok h \<and> alloc_ok (tick h)) \<longrightarrow>
            (\<exists>h'. SliceSlice (Some a) i1 i2 step h = Ret (None, h')))
       \<and> (\<not> rejected s i1 i2 step \<and> alloc_ok h \<and> alloc_ok (tick h)
            \<and> step_fits s i1 i2 step \<longrightarrow>
            (\<exists>h'. SliceSlice (Some a) i1 i2 step h = Ret (Some (length (slices h)), h')))
       \<and> (step_fits s i1 i2 step \<longrightarrow>
            ((\<exists>h'. SliceSlice (Some a) i1 i2 step h = Ret (None, h')) \<longleftrightarrow>
             rejected s i1 i2 step \<or> \<not> (alloc_ok h \<and> alloc_ok (tick h))))
       \<and> (norm_start s i1 = norm_end s i2 \<longrightarrow> rejected s i1 i2 step)"
proof -
  have rej: "SliceSlice (Some a) i1 i2 step h = Ret (None, h)" if "rejected s i1 i2 step"
    using assms(2) that by (rule SliceSlice_rejected)
  have alloc: "\<exists>h'. SliceSlice (Some a) i1 i2 step h = Ret (None, h')"
    if "\<not> rejected s i1 i2 step" and "\<not> (alloc_ok h \<and> alloc_ok (tick h))"
    using assms(2) that by (rule SliceSlice_alloc_fails)
  have good: "\<exists>h'. SliceSlice (Some a) i1 i2 step h = Ret (Some (length (slices h)), h')"
    if "\<not> rejected s i1 i2 step" and "alloc_ok h" and "alloc_ok (tick h)"
      and "step_fits s i1 i2 step"
    using assms(1,2) that(1) assms(3) that(4) that(2,3) by (rule SliceSlice_succeeds)
  have iff: "(\<exists>h'. SliceSlice (Some a) i1 i2 step h = Ret (None, h')) \<longleftrightarrow>
             rejected s i1 i2 step \<or> \<not> (alloc_ok h \<and> alloc_ok (tick h))"
    if f: "step_fits s i1 i2 step"
  proof (cases "rejected s i1 i2 step \<or> \<not> (alloc_ok h \<and> alloc_ok (tick h))")
    case True
    then have "\<exists>h'. SliceSlice (Some a) i1 i2 step h = Ret (None, h')"
      using rej alloc by (cases "rejected s i1 i2 step") blast+
    with True show ?thesis by simp
  next
    case False
    then have "\<not> rejected s i1 i2 step" and "alloc_ok h" and "alloc_ok (tick h)" by simp_all
    from good [OF this f] obtain h' where
      "SliceSlice (Some a) i1 i2 step h = Ret (Some (length (slices h)), h')" ..
    then have "\<not> (\<exists>h'. SliceSlice (Some a) i1 i2 step h = Ret (None, h'))" by simp
    with False show ?thesis by simp
  qed
  have eqb: "rejected s i1 i2 step" if "norm_start s i1 = norm_end s i2"
    using that by (simp add: rejected_def)
  show ?thesis using rej alloc good iff eqb by blast
qed

theorem SliceSlice_fails_iff_witness:
  "SliceSlice (Some 0) 1 1 1 ex_heap = Ret (None, ex_heap) \<and>
   rejected ex_slice 1 1 1 \<and>
   (\<exists>h'. SliceSlice (Some 0) 0 3 1 (ex_heap\<lparr>avail := [True, False]\<rparr>) = Ret (None, h')) \<and>
   \<not> rejected ex_slice 0 3 1 \<and>
   (\<exists>h'. SliceSlice (Some 0) (- 3) (- 1) 2 ex_heap = Ret (Some 1, h')) \<and>
   \<not> (\<exists>h'. SliceSlice (Some 0) (- 3) (- 1) 2 ex_heap = Ret (None, h')) \<and>
   \<not> rejected ex_slice (- 3) (- 1) 2 \<and> step_fits ex_slice (- 3) (- 1) 2"
proof -
  have v: "valid (ex_heap\<lparr>avail := b\<rparr>) 0" for b
    by (simp add: valid_def ex_defs lookup_def INT_MAX_def)
  have s: "lookup (slices (ex_heap\<lparr>avail := b\<rparr>)) 0 = Some ex_slice" for b
    by (simp add: ex_defs lookup_def)
  have e: "ex_heap\<lparr>avail := []\<rparr> = ex_heap" by (simp add: ex_defs)
  have n: "length (slices ex_heap) = 1" by (simp add: ex_defs)
  have i: "in_int 1" "in_int 2" by (simp_all add: in_int_def INT_MAX_def INT_MIN_def)
  have r1: "rejected ex_slice 1 1 1"
    by (simp add: rejected_def norm_start_def norm_end_def ex_defs)
  have r2: "\<not> rejected ex_slice 0 3 1" "\<not> rejected ex_slice (- 3) (- 1) 2"
    by (simp_all add: rejected_def norm_start_def norm_end_def ex_defs)
  have f: "step_fits ex_slice (- 3) (- 1) 2"
    by (simp add: step_fits_def norm_start_def norm_end_def ex_defs INT_MAX_def)
  have a: "alloc_ok ex_heap" "alloc_ok (tick ex_heap)"
    "\<not> alloc_ok (tick (ex_heap\<lparr>avail := [True, False]\<rparr>))"
    by (simp_all add: alloc_ok_def tick_def ex_defs)
  from SliceSlice_fails_iff [OF v [of "[]"] s [of "[]"] i(1), of 1 1]
    SliceSlice_fails_iff [OF v [of "[True, False]"] s [of "[True, False]"] i(1), of 0 3]
    SliceSlice_fails_iff [OF v [of "[]"] s [of "[]"] i(2), of "- 3" "- 1"] r1 r2 f a n
  show ?thesis unfolding e by simp
qed

text \<open>
  Without \<open>step_fits\<close> the statement \<^verbatim>\<open>i += step\<close> overflows: on the slice 1, 2, 3 the
  request \<open>(1, 3, INT_MAX)\<close> is accepted and allocated, the element at index 1 is
  copied, and the increment of the index is undefined behaviour.
\<close>

lemma SliceSlice_step_overflow:
  "valid ex_heap 0 \<and> lookup (slices ex_heap) 0 = Some ex_slice \<and> in_int 2147483647 \<and>
   \<not> rejected ex_slice 1 3 2147483647 \<and> alloc_ok ex_heap \<and> alloc_ok (tick ex_heap) \<and>
   \<not> step_fits ex_slice 1 3 2147483647 \<and>
   SliceSlice (Some 0) 1 3 2147483647 ex_heap = UB"
  by (simp add: ex_defs valid_def lookup_def INT_MAX_def INT_MIN_def in_int_def rejected_def
        norm_start_def norm_end_def alloc_ok_def tick_def step_fits_def SliceSlice_def
        NewSlice_def malloc_Slice_def calloc_def malloc_def copy_up.simps copy_elem_def
        SliceGet_def SliceAppend_def grow_def memcpy_def overlap_def load_def store_def u32_def)


subsection \<open>The full copy\<close>

text \<open>
  C3, as stated, fails on the empty slice: \<open>start = 0\<close> is not below \<open>len = 0\<close>, so
  \<^verbatim>\<open>SliceSlice(s, 0, 0, 1)\<close> returns \<^verbatim>\<open>NULL\<close>.
\<close>

theorem SliceSlice_empty_counterexample:
  "valid ex_empty 0 \<and>
   lookup (slices ex_empty) 0 = Some \<lparr>head = 0, len = 0, cap = 0, elSize = 4\<rparr> \<and>
   SliceSlice (Some 0) 0 0 1 ex_empty = Ret (None, ex_empty)"
  by (simp add: ex_defs valid_def lookup_def INT_MAX_def SliceSlice_def)

text \<open>
  C3, amended. For every valid non-empty slice, when the struct and the buffer of the
  result can be allocated, \<^verbatim>\<open>SliceSlice(s, 0, len, 1)\<close> succeeds and returns a new slice,
  a different struct with a different buffer, of the same length and element size and
  equal to \<open>s\<close> element for element; \<open>s\<close> and its elements are as before, and they stay so
  after any \<^verbatim>\<open>SliceAppend\<close> to the copy.
\<close>

theorem SliceSlice_copy:
  assumes "valid h a" and "lookup (slices h) a = Some s" and "0 < len s"
    and "alloc_ok h" and "alloc_ok (tick h)"
  shows "\<exists>r h' sr.
     SliceSlice (Some a) 0 (len s) 1 h = Ret (Some r, h') \<and>
     r \<noteq> a \<and> lookup (slices h') r = Some sr \<and> head sr \<noteq> head s \<and>
     len sr = len s \<and> elSize sr = elSize s \<and>
     (\<forall>k. 0 \<le> k \<and> k < len s \<longrightarrow> elem_at h a k \<noteq> None \<and> elem_at h' r k = elem_at h a k) \<and>
     lookup (slices h') a = Some s \<and> (\<forall>k. elem_at h' a k = elem_at h a k) \<and>
     (\<forall>p v q h''.
        load (bufs h') p (elSize s) = Some v \<and>
        SliceAppend (Some r) (Some p) h' = Ret (q, h'') \<longrightarrow>
        lookup (slices h'') a = Some s \<and> (\<forall>k. elem_at h'' a k = elem_at h a k))"
proof -
  let ?r = "length (slices h)"
  from SliceSlice_whole [OF assms]
  obtain h' sr where run: "SliceSlice (Some a) 0 (len s) 1 h = Ret (Some ?r, h')"
    and c: "copying h' a ?r" and s': "lookup (slices h') a = Some s"
    and sr: "lookup (slices h') ?r = Some sr" and l: "len sr = len s"
    and el: "\<forall>k. 0 \<le> k \<and> k < len s \<longrightarrow>
                elem_at h a k \<noteq> None \<and> elem_at h' ?r k = elem_at h a k"
    and same: "\<forall>j. elem_at h' a j = elem_at h a j"
    by blast
  note cd = copyingD [OF c s' sr]
  have fr: "lookup (slices h'') a = Some s \<and> (\<forall>k. elem_at h'' a k = elem_at h a k)"
    if "load (bufs h') p (elSize s) = Some v \<and>
        SliceAppend (Some ?r) (Some p) h' = Ret (q, h'')" for p v q h''
  proof -
    from that have "load (bufs h') p (elSize s) = Some v"
      and "SliceAppend (Some ?r) (Some p) h' = Ret (q, h'')" by simp_all
    from SliceAppend_frame [OF c s' this] same show ?thesis by simp
  qed
  show ?thesis
    using run cd(3,4,5) sr l el s' same fr
    by (intro exI [of _ ?r] exI [of _ h'] exI [of _ sr]) auto
qed

lemma ex_heap_copy:
  "SliceSlice (Some 0) 0 3 1 ex_heap =
     Ret (Some 1, ex_heap\<lparr>slices := [Some ex_slice, Some \<lparr>head = 2, len = 3, cap = 3, elSize = 4\<rparr>],
                        bufs := [Some [1,0,0,0, 2,0,0,0, 3,0,0,0, 0,0,0,0], Some [7,0,0,0],
                                 Some [1,0,0,0, 2,0,0,0, 3,0,0,0]]\<rparr>)"
  by (simp add: ex_defs SliceSlice_def NewSlice_def malloc_Slice_def calloc_def malloc_def
        alloc_ok_def tick_def copy_up.simps copy_elem_def SliceGet_def SliceAppend_def grow_def
        memcpy_def overlap_def load_def store_def lookup_def u32_def in_int_def INT_MAX_def
        INT_MIN_def Let_def)

theorem SliceSlice_copy_witness:
  "\<exists>r h'. SliceSlice (Some 0) 0 3 1 ex_heap = Ret (Some r, h') \<and> r = 1 \<and>
      map (elem_at h' r) [0, 1, 2] = [Some [1,0,0,0], Some [2,0,0,0], Some [3,0,0,0]] \<and>
      map (elem_at ex_heap 0) [0, 1, 2] = [Some [1,0,0,0], Some [2,0,0,0], Some [3,0,0,0]]"
proof -
  have v: "valid ex_heap 0" by (simp add: valid_def ex_defs lookup_def INT_MAX_def)
  have s: "lookup (slices ex_heap) 0 = Some ex_slice" by (simp add: ex_defs lookup_def)
  have l: "0 < len ex_slice" "len ex_slice = 3" by (simp_all add: ex_defs)
  have a: "alloc_ok ex_heap" "alloc_ok (tick ex_heap)"
    by (simp_all add: alloc_ok_def tick_def ex_defs)
  have e: "map (elem_at ex_heap 0) [0, 1, 2] = [Some [1,0,0,0], Some [2,0,0,0], Some [3,0,0,0]]"
    by (simp add: elem_at_def SliceGet_def ex_defs load_def lookup_def u32_def)
  from SliceSlice_copy [OF v s l(1) a] ex_heap_copy e show ?thesis
    unfolding l(2) by auto
qed


subsection \<open>Descending sub-ranges\<close>

text \<open>
  For a valid slice (in particular one whose elements take fewer than \<open>2 ^ 32\<close> bytes
  together) and a negative step of type \<^verbatim>\<open>int\<close>, a successful \<^verbatim>\<open>SliceSlice\<close> returns a
  slice whose element \<open>t\<close> is the source element at index \<open>end - 1 - t * |step|\<close>
  (normalised bounds), for every \<open>t\<close> below its length
  \<open>(end - 1 - start) div |step| + 1\<close>: the indices descend from \<open>end - 1\<close> in strides of
  \<open>|step|\<close>, all are at least \<open>start\<close>, and the next one would be below \<open>start\<close>. In
  particular, on a non-empty slice the result of a successful \<^verbatim>\<open>SliceSlice(s, 0, len, -1)\<close>
  has the length of \<open>s\<close> and its element \<open>k\<close> is the source element \<open>len - 1 - k\<close>; and
  the call does succeed when the result can be allocated.
\<close>

lemma SliceSlice_down_elems:
  assumes v: "valid h a" and s: "lookup (slices h) a = Some s"
    and st: "step < 0" "in_int step"
  shows "(\<forall>r h'. SliceSlice (Some a) i1 i2 step h = Ret (Some r, h') \<longrightarrow>
            (\<exists>sr. lookup (slices h') r = Some sr \<and>
               len sr = int (nat ((norm_end s i2 - 1 - norm_start s i1) div (- step) + 1)) \<and>
               (\<forall>t < nat ((norm_end s i2 - 1 - norm_start s i1) div (- step) + 1).
                  norm_start s i1 \<le> norm_end s i2 - 1 - int t * (- step) \<and>
                  elem_at h a (norm_end s i2 - 1 - int t * (- step)) \<noteq> None \<and>
                  elem_at h' r (int t) = elem_at h a (norm_end s i2 - 1 - int t * (- step))) \<and>
               norm_end s i2 - 1
                 - int (nat ((norm_end s i2 - 1 - norm_start s i1) div (- step) + 1)) * (- step)
                 < norm_start s i1))
       \<and> (0 < len s \<longrightarrow>
            (\<forall>r h'. SliceSlice (Some a) 0 (len s) (- 1) h = Ret (Some r, h') \<longrightarrow>
               (\<exists>sr. lookup (slices h') r = Some sr \<and> len sr = len s \<and>
                  (\<forall>k. 0 \<le> k \<and> k < len s \<longrightarrow>
                     elem_at h a (len s - 1 - k) \<noteq> None \<and>
                     elem_at h' r k = elem_at h a (len s - 1 - k)))))
       \<and> (0 < len s \<and> alloc_ok h \<and> alloc_ok (tick h) \<longrightarrow>
            (\<exists>r h'. SliceSlice (Some a) 0 (len s) (- 1) h = Ret (Some r, h')))"
proof (intro conjI allI impI)
  fix r h'
  assume run: "SliceSlice (Some a) i1 i2 step h = Ret (Some r, h')"
  let ?x = "norm_end s i2 - 1 - norm_start s i1"
  have acc: "\<not> rejected s i1 i2 step"
    using SliceSlice_rejected [OF s] run by auto
  have ok: "alloc_ok h \<and> alloc_ok (tick h)"
    using SliceSlice_alloc_fails [OF s acc] run by auto
  note b = accepted_bounds [OF validD(1) [OF v s] acc]
  have x0: "0 \<le> ?x" and d0: "0 < - step" using b(2) st(1) by simp_all
  note dc = down_count [OF x0 d0]
  from SliceSlice_down [OF v s acc st] ok run
  obtain sr where sr: "lookup (slices h') r = Some sr"
    and l: "len sr = int (nat (?x div (- step) + 1))"
    and el: "\<forall>t < nat (?x div (- step) + 1).
                elem_at h a (norm_end s i2 - 1 - int t * (- step)) \<noteq> None \<and>
                elem_at h' r (int t) = elem_at h a (norm_end s i2 - 1 - int t * (- step))"
    by auto
  have lo: "\<forall>t < nat (?x div (- step) + 1).
              norm_start s i1 \<le> norm_end s i2 - 1 - int t * (- step)"
  proof (intro allI impI)
    fix t assume "t < nat (?x div (- step) + 1)"
    with dc(1) have "int t * (- step) \<le> ?x" by blast
    then show "norm_start s i1 \<le> norm_end s i2 - 1 - int t * (- step)" by simp
  qed
  have hi: "norm_end s i2 - 1 - int (nat (?x div (- step) + 1)) * (- step) < norm_start s i1"
    using dc(2) by simp
  show "\<exists>sr. lookup (slices h') r = Some sr \<and>
               len sr = int (nat (?x div (- step) + 1)) \<and>
               (\<forall>t < nat (?x div (- step) + 1).
                  norm_start s i1 \<le> norm_end s i2 - 1 - int t * (- step) \<and>
                  elem_at h a (norm_end s i2 - 1 - int t * (- step)) \<noteq> None \<and>
                  elem_at h' r (int t) = elem_at h a (norm_end s i2 - 1 - int t * (- step))) \<and>
               norm_end s i2 - 1 - int (nat (?x div (- step) + 1)) * (- step) < norm_start s i1"
    using sr l el lo hi by (intro exI [of _ sr]) simp
next
  fix r h'
  assume ne: "0 < len s"
    and run: "SliceSlice (Some a) 0 (len s) (- 1) h = Ret (Some r, h')"
  have acc: "\<not> rejected s 0 (len s) (- 1)"
    using ne by (simp add: rejected_def norm_start_def norm_end_def)
  have ok: "alloc_ok h \<and> alloc_ok (tick h)"
    using SliceSlice_alloc_fails [OF s acc] run by auto
  have j: "norm_start s 0 = 0" "norm_end s (len s) = len s"
    using ne by (simp_all add: norm_start_def norm_end_def)
  have m: "nat ((len s - 1 - 0) div (- (- 1)) + 1) = nat (len s)" by simp
  have i1: "in_int (- 1)" by (simp add: in_int_def INT_MAX_def INT_MIN_def)
  from SliceSlice_down [OF v s acc _ i1] ok run
  obtain sr where sr: "lookup (slices h') r = Some sr"
    and l: "len sr = int (nat (len s))"
    and el: "\<forall>t < nat (len s).
                elem_at h a (len s - 1 - int t * (- (- 1))) \<noteq> None \<and>
                elem_at h' r (int t) = elem_at h a (len s - 1 - int t * (- (- 1)))"
    unfolding j m by auto
  have rev: "elem_at h a (len s - 1 - k) \<noteq> None \<and>
             elem_at h' r k = elem_at h a (len s - 1 - k)"
    if k: "0 \<le> k \<and> k < len s" for k
  proof -
    from k have "nat k < nat (len s)" by simp
    with el have "elem_at h a (len s - 1 - int (nat k) * (- (- 1))) \<noteq> None \<and>
       elem_at h' r (int (nat k)) = elem_at h a (len s - 1 - int (nat k) * (- (- 1)))" by blast
    with k show ?thesis by simp
  qed
  show "\<exists>sr. lookup (slices h') r = Some sr \<and> len sr = len s \<and>
               (\<forall>k. 0 \<le> k \<and> k < len s \<longrightarrow>
                  elem_at h a (len s - 1 - k) \<noteq> None \<and>
                  elem_at h' r k = elem_at h a (len s - 1 - k))"
    using sr l ne rev by (intro exI [of _ sr]) simp
next
  assume a: "0 < len s \<and> alloc_ok h \<and> alloc_ok (tick h)"
  then have ne: "0 < len s" and ok: "alloc_ok h" "alloc_ok (tick h)" by simp_all
  have acc: "\<not> rejected s 0 (len s) (- 1)"
    using ne by (simp add: rejected_def norm_start_def norm_end_def)
  have i1: "in_int (- 1)" by (simp add: in_int_def INT_MAX_def INT_MIN_def)
  from SliceSlice_down [OF v s acc _ i1 ok]
  show "\<exists>r h'. SliceSlice (Some a) 0 (len s) (- 1) h = Ret (Some r, h')" by auto
qed

lemma ex_heap_reverse:
  "SliceSlice (Some 0) 0 3 (- 1) ex_heap =
     Ret (Some 1, ex_heap\<lparr>slices := [Some ex_slice, Some \<lparr>head = 2, len = 3, cap = 3, elSize = 4\<rparr>],
                        bufs := [Some [1,0,0,0, 2,0,0,0, 3,0,0,0, 0,0,0,0], Some [7,0,0,0],
                                 Some [3,0,0,0, 2,0,0,0, 1,0,0,0]]\<rparr>)"
  by (simp add: ex_defs SliceSlice_def NewSlice_def malloc_Slice_def calloc_def malloc_def
        alloc_ok_def tick_def copy_down.simps copy_elem_def SliceGet_def SliceAppend_def grow_def
        memcpy_def overlap_def load_def store_def lookup_def u32_def in_int_def INT_MAX_def
        INT_MIN_def Let_def)

lemma ex_heap_stride:
  "SliceSlice (Some 0) 0 3 (- 2) ex_heap =
     Ret (Some 1, ex_heap\<lparr>slices := [Some ex_slice, Some \<lparr>head = 2, len = 2, cap = 3, elSize = 4\<rparr>],
                        bufs := [Some [1,0,0,0, 2,0,0,0, 3,0,0,0, 0,0,0,0], Some [7,0,0,0],
                                 Some ([3,0,0,0, 1,0,0,0] @ replicate 4 0)]\<rparr>)"
  by (simp add: ex_defs SliceSlice_def NewSlice_def malloc_Slice_def calloc_def malloc_def
        alloc_ok_def tick_def copy_down.simps copy_elem_def SliceGet_def SliceAppend_def grow_def
        memcpy_def overlap_def load_def store_def lookup_def u32_def in_int_def INT_MAX_def
        INT_MIN_def Let_def)

lemma SliceSlice_down_elems_ex:
  "(\<exists>r h' sr. SliceSlice (Some 0) 0 3 (- 2) ex_heap = Ret (Some r, h') \<and>
      lookup (slices h') r = Some sr \<and> len sr = 2 \<and>
      elem_at h' r 0 = elem_at ex_heap 0 2 \<and> elem_at h' r 1 = elem_at ex_heap 0 0) \<and>
   (\<exists>r h' sr. SliceSlice (Some 0) 0 3 (- 1) ex_heap = Ret (Some r, h') \<and>
      lookup (slices h') r = Some sr \<and> len sr = 3 \<and>
      elem_at h' r 0 = elem_at ex_heap 0 2 \<and> elem_at h' r 1 = elem_at ex_heap 0 1 \<and>
      elem_at h' r 2 = elem_at ex_heap 0 0) \<and>
   map (elem_at ex_heap 0) [0, 1, 2] = [Some [1,0,0,0], Some [2,0,0,0], Some [3,0,0,0]]"
proof -
  have v: "valid ex_heap 0" by (simp add: valid_def ex_defs lookup_def INT_MAX_def)
  have s: "lookup (slices ex_heap) 0 = Some ex_slice" by (simp add: ex_defs lookup_def)
  have i: "(- 2 :: int) < 0" "in_int (- 2)" by (simp_all add: in_int_def INT_MAX_def INT_MIN_def)
  have l: "0 < len ex_slice" "len ex_slice = 3" by (simp_all add: ex_defs)
  have a: "alloc_ok ex_heap" "alloc_ok (tick ex_heap)"
    by (simp_all add: alloc_ok_def tick_def ex_defs)
  have n: "norm_start ex_slice 0 = 0" "norm_end ex_slice 3 = 3"
    by (simp_all add: norm_start_def norm_end_def ex_defs)
  have e: "map (elem_at ex_heap 0) [0, 1, 2] = [Some [1,0,0,0], Some [2,0,0,0], Some [3,0,0,0]]"
    by (simp add: elem_at_def SliceGet_def ex_defs load_def lookup_def u32_def)
  note t = SliceSlice_down_elems [OF v s i, of 0 3, unfolded n l(2)]
  from t [THEN conjunct1, rule_format, OF ex_heap_stride]
  have 1: "\<exists>r h' sr. SliceSlice (Some 0) 0 3 (- 2) ex_heap = Ret (Some r, h') \<and>
      lookup (slices h') r = Some sr \<and> len sr = 2 \<and>
      elem_at h' r 0 = elem_at ex_heap 0 2 \<and> elem_at h' r 1 = elem_at ex_heap 0 0"
    using ex_heap_stride by (auto simp: nat_less_iff less_Suc_eq numeral_2_eq_2)
  from t [THEN conjunct2, THEN conjunct1] t [THEN conjunct2, THEN conjunct2] l(1) a
  have 2: "\<exists>r h' sr. SliceSlice (Some 0) 0 3 (- 1) ex_heap = Ret (Some r, h') \<and>
      lookup (slices h') r = Some sr \<and> len sr = 3 \<and>
      elem_at h' r 0 = elem_at ex_heap 0 2 \<and> elem_at h' r 1 = elem_at ex_heap 0 1 \<and>
      elem_at h' r 2 = elem_at ex_heap 0 0"
    by (auto simp: l(2)) 
  from 1 2 e show ?thesis by blast
qed

lemma ex_huge_reverse:
  "(case SliceSlice (Some 0) 0 3 (- 1) ex_huge_after of
      Ret (Some r, h') \<Rightarrow>
        map_option len (lookup (slices h') r) = Some 3 \<and>
        map_option (\<lambda>v. v ! 2) (elem_at h' r 0) = Some 1
    | _ \<Rightarrow> False)"
  by (simp add: ex_huge_after_def slice_defs eval_defs nth_append)

text \<open>
  C5. The claim says that \<^verbatim>\<open>SliceSlice(s, 0, len, -1)\<close> yields the elements in reverse
  order, so that element 0 of the result is the last element of \<open>s\<close>. On the slice of
  three elements of \<open>2 ^ 31 + 1\<close> bytes that \<^verbatim>\<open>NewSlice\<close> and three appends leave, the last
  element consists of bytes 9. The call succeeds and its result has length 3, but byte 2
  of element 0 of the result is 1: the byte offsets \<open>i * elSize\<close> of \<^verbatim>\<open>SliceGet\<close> and
  \<open>len * elSize\<close> of \<^verbatim>\<open>SliceAppend\<close> wrap modulo \<open>2 ^ 32\<close>, and the third copied element
  is stored at offset 2 of the result, over the first.
\<close>

theorem SliceSlice_reverse_wraps:
  "SliceAppend (Some 0) (Some (1, 0)) ex_huge = Ret (Some 0, ex_huge_after) \<and>
   map_option len (lookup (slices ex_huge_after) 0) = Some 3 \<and>
   elem_at ex_huge_after 0 2 = Some (replicate 2147483649 9) \<and>
   (case SliceSlice (Some 0) 0 3 (- 1) ex_huge_after of
      Ret (Some r, h') \<Rightarrow>
        map_option len (lookup (slices h') r) = Some 3 \<and>
        map_option (\<lambda>v. v ! 2) (elem_at h' r 0) = Some 1
    | _ \<Rightarrow> False)"
  using ex_huge_append3 ex_huge_elems ex_huge_reverse by simp

end
